theory Spec2Isabelle
  imports Main "HOL-Library.Char_ord" "HOL-Library.List_Lexorder"
begin

section \<open>Go strings, runes and the library functions wslcd calls\<close>

text \<open>
  A Go string is a sequence of bytes: \<open>len\<close> counts bytes, \<open>s[i]\<close> is a byte and
  \<open>s[i:j]\<close> slices bytes. Isabelle's \<open>string\<close> is a list of 8-bit characters, so a Go
  string is modelled as a \<open>string\<close>, \<open>len\<close> as \<open>length\<close>, \<open>s[:n]\<close> as \<open>take n s\<close> and
  \<open>s[n:]\<close> as \<open>drop n s\<close>. Go's \<open><\<close> on strings compares bytes lexicographically,
  which is the order of \<open>HOL-Library.List_Lexorder\<close> over \<open>HOL-Library.Char_ord\<close>.
  A rune is a Unicode code point (Go's \<open>int32\<close>), modelled as an integer, and so is the
  value of a byte.
\<close>

type_synonym rune = int

definition RuneError :: rune where
  "RuneError = 0xFFFD"

definition byte :: "char \<Rightarrow> int" where
  "byte c = of_char c"

text \<open>
  \<open>utf8.DecodeRune\<close> on the byte values of a string: the rune and its width. An invalid or
  truncated encoding decodes to \<open>RuneError\<close> with width 1. The ranges of the second byte are
  those of Go's \<open>acceptRanges\<close> table (no overlong forms, no surrogates, nothing above
  U+10FFFF). The conversion \<open>[]rune(s)\<close> and \<open>for range s\<close> decode the same way.
\<close>

definition cont :: "int \<Rightarrow> bool" where
  "cont b = (0x80 \<le> b \<and> b \<le> 0xBF)"

definition acceptLo :: "int \<Rightarrow> int" where
  "acceptLo b0 = (if b0 = 0xE0 then 0xA0 else if b0 = 0xF0 then 0x90 else 0x80)"

definition acceptHi :: "int \<Rightarrow> int" where
  "acceptHi b0 = (if b0 = 0xED then 0x9F else if b0 = 0xF4 then 0x8F else 0xBF)"

definition DecodeRune :: "int list \<Rightarrow> rune \<times> nat" where
  "DecodeRune p =
     (case p of
        [] \<Rightarrow> (RuneError, 0)
      | b0 # bs \<Rightarrow>
          if b0 < 0x80 then (b0, 1)
          else if b0 < 0xC2 \<or> 0xF4 < b0 then (RuneError, 1)
          else (case bs of
            [] \<Rightarrow> (RuneError, 1)
          | b1 # bs1 \<Rightarrow>
              if b1 < acceptLo b0 \<or> acceptHi b0 < b1 then (RuneError, 1)
              else if b0 < 0xE0 then ((b0 mod 32) * 64 + b1 mod 64, 2)
              else (case bs1 of
                [] \<Rightarrow> (RuneError, 1)
              | b2 # bs2 \<Rightarrow>
                  if \<not> cont b2 then (RuneError, 1)
                  else if b0 < 0xF0 then ((b0 mod 16) * 4096 + (b1 mod 64) * 64 + b2 mod 64, 3)
                  else (case bs2 of
                    [] \<Rightarrow> (RuneError, 1)
                  | b3 # bs3 \<Rightarrow>
                      if \<not> cont b3 then (RuneError, 1)
                      else ((b0 mod 8) * 262144 + (b1 mod 64) * 4096 + (b2 mod 64) * 64
                              + b3 mod 64, 4)))))"

fun decodeAll :: "int list \<Rightarrow> rune list" where
  "decodeAll [] = []"
| "decodeAll (b # bs) = fst (DecodeRune (b # bs)) # decodeAll (drop (snd (DecodeRune (b # bs)) - 1) bs)"

text \<open>\<open>[]rune(s)\<close>.\<close>

definition runes :: "string \<Rightarrow> rune list" where
  "runes s = decodeAll (map byte s)"

text \<open>
  \<open>string(r)\<close> for a rune \<open>r\<close> (\<open>utf8.AppendRune\<close>): the UTF-8 encoding; a surrogate, a
  negative value or a value above U+10FFFF is encoded as U+FFFD.
\<close>

definition encodeRune :: "rune \<Rightarrow> string" where
  "encodeRune r =
     (if r < 0 \<or> 0x10FFFF < r \<or> (0xD800 \<le> r \<and> r \<le> 0xDFFF)
      then [char_of (0xEF::int), char_of (0xBF::int), char_of (0xBD::int)]
      else if r < 0x80 then [char_of r]
      else if r < 0x800 then [char_of (0xC0 + r div 64), char_of (0x80 + r mod 64)]
      else if r < 0x10000 then
        [char_of (0xE0 + r div 4096), char_of (0x80 + (r div 64) mod 64), char_of (0x80 + r mod 64)]
      else
        [char_of (0xF0 + r div 262144), char_of (0x80 + (r div 4096) mod 64),
         char_of (0x80 + (r div 64) mod 64), char_of (0x80 + r mod 64)])"

text \<open>
  What the program takes from outside its own source: the two system calls it makes and the
  tables of Go's package \<open>unicode\<close> (which change with the Unicode version of the Go
  release). \<open>ReadDir\<close> is \<open>os.ReadDir\<close>: \<open>None\<close> when it returns an error (the program drops
  the partial listing in that case), else the entries. \<open>Stat\<close> is \<open>os.Stat\<close>, which follows
  symbolic links: \<open>None\<close> when it returns an error, else \<open>info.IsDir()\<close>. \<open>IsDir\<close> of an entry
  is \<open>DirEntry.IsDir\<close>, the type of the entry itself (false for a symbolic link).
  \<open>FoldOrbit a b\<close>, for \<open>a < b\<close> and \<open>b\<close> outside ASCII, says that iterating
  \<open>unicode.SimpleFold\<close> from \<open>a\<close> reaches \<open>b\<close>.
\<close>

record dirEntry =
  Name :: string
  IsDir :: bool

record sys =
  ReadDir :: "string \<Rightarrow> dirEntry list option"
  Stat :: "string \<Rightarrow> bool option"
  IsLetter :: "rune \<Rightarrow> bool"
  ToLower :: "rune \<Rightarrow> rune"
  FoldOrbit :: "rune \<Rightarrow> rune \<Rightarrow> bool"

text \<open>
  \<open>strings.EqualFold\<close>: the two strings decode to rune sequences of the same length that
  agree position by position under simple case folding. For two ASCII runes that is equality
  up to the case of a letter (the library's fast check); the orbit table is consulted only
  when the larger rune is outside ASCII.
\<close>

definition foldEq :: "sys \<Rightarrow> rune \<Rightarrow> rune \<Rightarrow> bool" where
  "foldEq env sr0 tr0 =
     (if tr0 = sr0 then True
      else let sr = min sr0 tr0; tr = max sr0 tr0 in
        if tr < 0x80 then (0x41 \<le> sr \<and> sr \<le> 0x5A \<and> tr = sr + 0x20)
        else FoldOrbit env sr tr)"

fun foldAll :: "sys \<Rightarrow> rune list \<Rightarrow> rune list \<Rightarrow> bool" where
  "foldAll env [] [] = True"
| "foldAll env (x # xs) (y # ys) = (foldEq env x y \<and> foldAll env xs ys)"
| "foldAll env _ _ = False"

definition EqualFold :: "sys \<Rightarrow> string \<Rightarrow> string \<Rightarrow> bool" where
  "EqualFold env s t = foldAll env (runes s) (runes t)"

text \<open>
  \<open>strings.ToLower\<close>: an all-ASCII string is lowered byte by byte; any other string is
  decoded, \<open>unicode.ToLower\<close> is mapped over its runes and the result encoded again
  (\<open>strings.Map\<close>, which drops a negative result).
\<close>

definition lowerASCII :: "char \<Rightarrow> char" where
  "lowerASCII c = (if 0x41 \<le> byte c \<and> byte c \<le> 0x5A then char_of (byte c + 0x20) else c)"

definition strToLower :: "sys \<Rightarrow> string \<Rightarrow> string" where
  "strToLower env s =
     (if \<forall>c \<in> set s. byte c < 0x80 then map lowerASCII s
      else concat (map (\<lambda>c. let r = ToLower env c in if r < 0 then [] else encodeRune r)
                    (runes s)))"

text \<open>\<open>strings.Split(s, "/")\<close> for a one-byte separator; the result is never empty.\<close>

fun Split :: "string \<Rightarrow> char \<Rightarrow> string list" where
  "Split [] sep = [[]]"
| "Split (c # cs) sep =
     (if c = sep then [] # Split cs sep
      else (case Split cs sep of [] \<Rightarrow> [[c]] | w # ws \<Rightarrow> (c # w) # ws))"

text \<open>\<open>strings.ReplaceAll(s, old, new)\<close> for one-byte \<open>old\<close> and \<open>new\<close>.\<close>

definition ReplaceAll :: "string \<Rightarrow> char \<Rightarrow> char \<Rightarrow> string" where
  "ReplaceAll s old new = map (\<lambda>c. if c = old then new else c) s"

text \<open>\<open>strings.TrimLeft(s, cutset)\<close> for an ASCII cutset: leading bytes of the set are removed.\<close>

definition TrimLeft :: "string \<Rightarrow> string \<Rightarrow> string" where
  "TrimLeft s cutset = dropWhile (\<lambda>c. c \<in> set cutset) s"

text \<open>\<open>strings.HasPrefix\<close>.\<close>

definition HasPrefix :: "string \<Rightarrow> string \<Rightarrow> bool" where
  "HasPrefix s p = (take (length p) s = p)"

text \<open>
  \<open>unicode.IsSpace\<close>: the White_Space property, a fixed set. \<open>strings.TrimSpace\<close> removes
  leading runes of the set, decoding from the left, then trailing ones, decoding from the
  right with \<open>utf8.DecodeLastRune\<close>: that one steps back to the nearest byte that can start a
  rune, among the last four, and accepts the rune only if its encoding ends the string.
\<close>

definition IsSpace :: "rune \<Rightarrow> bool" where
  "IsSpace r =
     ((0x09 \<le> r \<and> r \<le> 0x0D) \<or> r = 0x20 \<or> r = 0x85 \<or> r = 0xA0 \<or> r = 0x1680
      \<or> (0x2000 \<le> r \<and> r \<le> 0x200A) \<or> r = 0x2028 \<or> r = 0x2029 \<or> r = 0x202F
      \<or> r = 0x205F \<or> r = 0x3000)"

fun trimLeftSpace :: "int list \<Rightarrow> int list" where
  "trimLeftSpace [] = []"
| "trimLeftSpace (b # bs) =
     (if IsSpace (fst (DecodeRune (b # bs)))
      then trimLeftSpace (drop (snd (DecodeRune (b # bs)) - 1) bs)
      else b # bs)"

definition DecodeLastRune :: "int list \<Rightarrow> rune \<times> nat" where
  "DecodeLastRune bs =
     (case rev bs of
        [] \<Rightarrow> (RuneError, 0)
      | b # prev \<Rightarrow>
          if b < 0x80 then (b, 1)
          else (case filter (\<lambda>k. \<not> cont (prev ! k)) [0 ..< min 3 (length prev)] of
            [] \<Rightarrow> (RuneError, 1)
          | k # _ \<Rightarrow>
              let enc = rev (take (k + 1) prev) @ [b] in
              if snd (DecodeRune enc) = k + 2 then DecodeRune enc else (RuneError, 1)))"

function trimRightSpace :: "int list \<Rightarrow> int list" where
  "trimRightSpace bs =
     (if bs = [] then []
      else if IsSpace (fst (DecodeLastRune bs))
      then trimRightSpace (take (length bs - snd (DecodeLastRune bs)) bs)
      else bs)"
  by pat_completeness auto
termination
proof (relation "measure length")
  show "wf (measure length)" by simp
next
  fix bs :: "int list"
  assume "bs \<noteq> []"
  then have "0 < snd (DecodeLastRune bs)"
    by (cases "rev bs") (auto simp: DecodeLastRune_def Let_def split: list.splits)
  with \<open>bs \<noteq> []\<close>
  show "(take (length bs - snd (DecodeLastRune bs)) bs, bs) \<in> measure length"
    by simp
qed

definition TrimSpace :: "string \<Rightarrow> string" where
  "TrimSpace s = map char_of (trimRightSpace (trimLeftSpace (map byte s)))"

text \<open>
  \<open>filepath.Clean\<close> on Unix, element by element: empty elements and \<open>.\<close> are dropped, \<open>..\<close>
  removes the element before it, is dropped at the root of a rooted path and kept at the
  start of a relative one; the empty result is \<open>.\<close>.
\<close>

fun cleanElems :: "bool \<Rightarrow> string list \<Rightarrow> string list \<Rightarrow> string list" where
  "cleanElems rooted [] out = out"
| "cleanElems rooted (e # es) out =
     (if e = [] \<or> e = ''.'' then cleanElems rooted es out
      else if e = ''..'' then
        (if out \<noteq> [] \<and> last out \<noteq> ''..'' then cleanElems rooted es (butlast out)
         else if \<not> rooted then cleanElems rooted es (out @ [''..''])
         else cleanElems rooted es out)
      else cleanElems rooted es (out @ [e]))"

fun joinSlash :: "string list \<Rightarrow> string" where
  "joinSlash [] = []"
| "joinSlash [e] = e"
| "joinSlash (e # es) = e @ ''/'' @ joinSlash es"

definition Clean :: "string \<Rightarrow> string" where
  "Clean p =
     (if p = [] then ''.''
      else let rooted = (hd p = CHR ''/'');
               out = (if rooted then ''/'' else []) @ joinSlash (cleanElems rooted (Split p CHR ''/'') [])
           in if out = [] then ''.'' else out)"

text \<open>\<open>filepath.Join(a, b)\<close>: the elements from the first non-empty one on, joined and cleaned.\<close>

definition Join :: "string \<Rightarrow> string \<Rightarrow> string" where
  "Join a b = (if a \<noteq> [] then Clean (a @ ''/'' @ b) else if b \<noteq> [] then Clean b else [])"

text \<open>
  \<open>sort.SliceStable(x, less)\<close>: a stable sort. A stable sort by a comparison that orders
  the elements into classes has one result, so an insertion sort stands for it.
\<close>

fun insertStable :: "('a \<Rightarrow> 'a \<Rightarrow> bool) \<Rightarrow> 'a \<Rightarrow> 'a list \<Rightarrow> 'a list" where
  "insertStable lessf x [] = [x]"
| "insertStable lessf x (y # ys) =
     (if lessf y x then y # insertStable lessf x ys else x # y # ys)"

definition SliceStable :: "('a \<Rightarrow> 'a \<Rightarrow> bool) \<Rightarrow> 'a list \<Rightarrow> 'a list" where
  "SliceStable lessf xs = foldr (insertStable lessf) xs []"

section \<open>wslcd\<close>

subsection \<open>Case Scorer\<close>

text \<open>
  \<open>caseScore\<close>: the loop \<open>for i := 0; i < n; i++\<close> over the runes of both strings, \<open>n\<close> the
  smaller rune count. The score is a Go \<open>int\<close>; it never exceeds the length of a string, so
  it cannot overflow and is modelled as an integer.
\<close>

definition caseScore :: "string \<Rightarrow> string \<Rightarrow> int" where
  "caseScore input candidate =
     (let inRunes = runes input;
          cRunes = runes candidate;
          n = (if length cRunes < length inRunes then length cRunes else length inRunes)
      in foldl (\<lambda>score i. if inRunes ! i = cRunes ! i then score + 1 else score) 0 [0 ..< n])"

subsection \<open>Errors\<close>

text \<open>
  One constructor for each error the program builds, with the values its message is
  formatted from. \<open>ReadDirErr\<close> is the error of \<open>os.ReadDir\<close> that
  \<open>pickCaseInsensitiveEntry\<close> returns as it is. \<open>IndexOutOfRange\<close> is the run-time panic
  of an index or slice expression out of range.
\<close>

datatype error =
    MissingTarget
  | HomeNotSet
  | StatErr string
  | NotADirectory string
  | ReadDirErr string
  | NoMatch string string
  | CannotLocateMount rune error
  | PathDoesNotExist string
  | CannotReadDirectory string
  | CannotSegment string string string
  | IndexOutOfRange

text \<open>
  The program checks a resolved path in three places with the same three lines:
  \<open>os.Stat\<close>, its error returned, then \<open>not a directory\<close> unless \<open>info.IsDir()\<close>.
\<close>

definition statDir :: "sys \<Rightarrow> string \<Rightarrow> error + string" where
  "statDir env p =
     (case Stat env p of
        None \<Rightarrow> Inl (StatErr p)
      | Some isDir \<Rightarrow> if \<not> isDir then Inl (NotADirectory p) else Inr p)"

subsection \<open>isDirFollowSymlink\<close>

text \<open>The result pair \<open>(bool, error)\<close>: \<open>Inl\<close> when the error is not nil.\<close>

definition isDirFollowSymlink :: "sys \<Rightarrow> string \<Rightarrow> dirEntry \<Rightarrow> error + bool" where
  "isDirFollowSymlink env full de =
     (if IsDir de then Inr True
      else (case Stat env full of None \<Rightarrow> Inl (StatErr full) | Some isDir \<Rightarrow> Inr isDir))"

subsection \<open>Mount Root Locator\<close>

record pair =
  pName :: string
  pScore :: int

definition pairLess :: "pair \<Rightarrow> pair \<Rightarrow> bool" where
  "pairLess a b = (if pScore a \<noteq> pScore b then pScore a > pScore b else pName a < pName b)"

fun pickMatches :: "sys \<Rightarrow> string \<Rightarrow> dirEntry list \<Rightarrow> pair list" where
  "pickMatches env want [] = []"
| "pickMatches env want (e # ents) =
     (let n = Name e in
      if EqualFold env n want
      then \<lparr>pName = n, pScore = caseScore want n\<rparr> # pickMatches env want ents
      else pickMatches env want ents)"

definition pickCaseInsensitiveEntry :: "sys \<Rightarrow> string \<Rightarrow> string \<Rightarrow> error + string" where
  "pickCaseInsensitiveEntry env dir want =
     (case ReadDir env dir of
        None \<Rightarrow> Inl (ReadDirErr dir)
      | Some ents \<Rightarrow>
          let wantLower = strToLower env want;
              matches = pickMatches env want ents
          in if matches = [] then
               (let candidate = Join dir wantLower in
                if Stat env candidate = Some True then Inr wantLower
                else Inl (NoMatch want dir))
             else Inr (pName (hd (SliceStable pairLess matches))))"

subsection \<open>Segmented Candidate Explorer\<close>

record candidate =
  fullPath :: string
  score :: int

record state =
  dir :: string
  idx :: nat
  stScore :: int

record match =
  mName :: string
  mScore :: int
  path :: string

fun dfsMatches :: "sys \<Rightarrow> string \<Rightarrow> string \<Rightarrow> dirEntry list \<Rightarrow> match list" where
  "dfsMatches env d seg [] = []"
| "dfsMatches env d seg (e # ents) =
     (let n = Name e in
      if \<not> EqualFold env n seg then dfsMatches env d seg ents
      else let full = Join d n in
        (case isDirFollowSymlink env full e of
           Inl err \<Rightarrow> dfsMatches env d seg ents
         | Inr isDir \<Rightarrow>
             if \<not> isDir then dfsMatches env d seg ents
             else \<lparr>mName = n, mScore = caseScore seg n, path = full\<rparr> # dfsMatches env d seg ents))"

text \<open>
  The closure \<open>dfs\<close> returns nil on every path; what it does is append to \<open>results\<close>.
  The model returns the candidates a call appends, in the order it appends them.
\<close>

function dfs :: "sys \<Rightarrow> string list \<Rightarrow> state \<Rightarrow> candidate list" where
  "dfs env segs st =
     (if idx st \<ge> length segs then
        (case Stat env (dir st) of
           None \<Rightarrow> []
         | Some isDir \<Rightarrow> if isDir then [\<lparr>fullPath = dir st, score = stScore st\<rparr>] else [])
      else let seg = segs ! idx st in
        (case ReadDir env (dir st) of
           None \<Rightarrow> []
         | Some ents \<Rightarrow>
             let ms = dfsMatches env (dir st) seg ents in
             concat (map (\<lambda>m. dfs env segs \<lparr>dir = path m, idx = idx st + 1,
                                            stScore = stScore st + mScore m\<rparr>) ms)))"
  by pat_completeness auto
termination
  by (relation "measure (\<lambda>(env, segs, st). length segs - idx st)") auto

definition exploreCandidates :: "sys \<Rightarrow> string \<Rightarrow> string list \<Rightarrow> error + candidate list" where
  "exploreCandidates env root segs =
     (if segs = [] then
        (if Stat env root = Some True then Inr [\<lparr>fullPath = root, score = 0\<rparr>] else Inr [])
      else Inr (dfs env segs \<lparr>dir = root, idx = 0, stScore = 0\<rparr>))"

subsection \<open>Candidate Selector and resolveWindowsPath\<close>

definition candidateLess :: "candidate \<Rightarrow> candidate \<Rightarrow> bool" where
  "candidateLess a b = (if score a \<noteq> score b then score a > score b else fullPath a < fullPath b)"

fun normalizeSegs :: "string list \<Rightarrow> string list \<Rightarrow> string list" where
  "normalizeSegs [] segs = segs"
| "normalizeSegs (s # ss) segs =
     (if s = [] then normalizeSegs ss segs
      else if s = ''.'' then normalizeSegs ss segs
      else if s = ''..'' then
        (if length segs > 0 then normalizeSegs ss (butlast segs) else normalizeSegs ss segs)
      else normalizeSegs ss (segs @ [s]))"

definition backslash :: char where
  "backslash = CHR 0x5C"

definition segments :: "string \<Rightarrow> string list" where
  "segments win =
     (let rest = drop 2 win;
          rest = ReplaceAll rest backslash CHR ''/''
      in normalizeSegs (Split rest CHR ''/'') [])"

definition resolveWindowsPath :: "sys \<Rightarrow> string \<Rightarrow> error + string" where
  "resolveWindowsPath env win =
     (if length win < 2 then Inl IndexOutOfRange
      else let drive = ToLower env (byte (win ! 0));
               segs = segments win
        in (case pickCaseInsensitiveEntry env ''/mnt'' (encodeRune drive) of
              Inl err \<Rightarrow> Inl (CannotLocateMount drive err)
            | Inr mntRoot \<Rightarrow>
                let root = Join ''/mnt'' mntRoot in
                (case exploreCandidates env root segs of
                   Inl err \<Rightarrow> Inl err
                 | Inr cands \<Rightarrow>
                     if length cands = 0 then
                       (if length segs = 0 then statDir env root
                        else Inl (PathDoesNotExist win))
                     else Inr (fullPath (hd (SliceStable candidateLess cands))))))"

subsection \<open>Collapsed-Path Greedy Matcher\<close>

record cand =
  cName :: string
  plen :: nat
  cScore :: int

definition candLess :: "cand \<Rightarrow> cand \<Rightarrow> bool" where
  "candLess a b =
     (if plen a \<noteq> plen b then plen a > plen b
      else if cScore a \<noteq> cScore b then cScore a > cScore b
      else cName a < cName b)"

fun collapsedMatches :: "sys \<Rightarrow> string \<Rightarrow> string \<Rightarrow> dirEntry list \<Rightarrow> cand list" where
  "collapsedMatches env cur tail [] = []"
| "collapsedMatches env cur tail (e # ents) =
     (let n = Name e; ln = length n in
      if ln > length tail then collapsedMatches env cur tail ents
      else if \<not> EqualFold env (take ln tail) n then collapsedMatches env cur tail ents
      else let full = Join cur n in
        (case isDirFollowSymlink env full e of
           Inl err \<Rightarrow> collapsedMatches env cur tail ents
         | Inr isDir \<Rightarrow>
             if \<not> isDir then collapsedMatches env cur tail ents
             else \<lparr>cName = n, plen = ln, cScore = caseScore (take ln tail) n\<rparr>
                    # collapsedMatches env cur tail ents))"

definition argHead :: "string \<Rightarrow> string" where
  "argHead s =
     (if length s = 0 then []
      else if length s > 16 then take 16 s @ ''...''
      else s)"

text \<open>
  One pass through the body of the \<open>for\<close> loop: it returns, or it goes round again with a
  new \<open>cur\<close> and \<open>tail\<close>.
\<close>

datatype pass = Return "error + string" | Again string string

definition collapsedPass :: "sys \<Rightarrow> string \<Rightarrow> string \<Rightarrow> pass" where
  "collapsedPass env cur tail =
     (if length tail = 0 then Return (statDir env cur)
      else if hd tail = CHR ''/'' \<or> hd tail = backslash
      then Again cur (TrimLeft tail [backslash, CHR ''/''])
      else (case ReadDir env cur of
        None \<Rightarrow> Return (Inl (CannotReadDirectory cur))
      | Some ents \<Rightarrow>
          let ms = collapsedMatches env cur tail ents in
          if length ms = 0 then Return (Inl (CannotSegment tail (argHead tail) cur))
          else let chosen = hd (SliceStable candLess ms) in
            Again (Join cur (cName chosen)) (drop (plen chosen) tail)))"

text \<open>
  The loop has no bound of its own: were a listing to hold an entry with the empty name and
  nothing longer matched, a pass would change neither \<open>cur\<close> nor \<open>tail\<close>. \<open>None\<close> is
  the loop that never returns.
\<close>

partial_function (option) collapsedLoop :: "sys \<Rightarrow> string \<Rightarrow> string \<Rightarrow> (error + string) option" where
  [code]: "collapsedLoop env cur tail =
     (case collapsedPass env cur tail of
        Return r \<Rightarrow> Some r
      | Again cur' tail' \<Rightarrow> collapsedLoop env cur' tail')"

definition resolveWindowsPathCollapsed :: "sys \<Rightarrow> string \<Rightarrow> (error + string) option" where
  "resolveWindowsPathCollapsed env win =
     (if length win < 2 then Some (Inl IndexOutOfRange)
      else let drive = ToLower env (byte (win ! 0));
               tail = drop 2 win
        in (case pickCaseInsensitiveEntry env ''/mnt'' (encodeRune drive) of
              Inl err \<Rightarrow> Some (Inl (CannotLocateMount drive err))
            | Inr mntRoot \<Rightarrow>
                collapsedLoop env (Join ''/mnt'' mntRoot) (TrimLeft tail [backslash, CHR ''/''])))"

subsection \<open>Classification and ResolveTarget\<close>

definition isWindowsPath :: "sys \<Rightarrow> string \<Rightarrow> bool" where
  "isWindowsPath env p =
     (if length p < 3 then False
      else let r0 = byte (p ! 0) in
        if \<not> IsLetter env r0 then False
        else if p ! 1 \<noteq> CHR '':'' then False
        else let sep = p ! 2 in sep = backslash \<or> sep = CHR ''/'')"

definition looksLikeWindowsDriveNoSlash :: "sys \<Rightarrow> string \<Rightarrow> bool" where
  "looksLikeWindowsDriveNoSlash env p =
     (if length p < 3 then False
      else if \<not> IsLetter env (byte (p ! 0)) \<or> p ! 1 \<noteq> CHR '':'' then False
      else p ! 2 \<noteq> backslash \<and> p ! 2 \<noteq> CHR ''/'')"

definition resolveLinuxLike :: "string \<Rightarrow> string \<Rightarrow> string \<Rightarrow> error + string" where
  "resolveLinuxLike arg cwd home =
     (if arg = ''~'' then
        (if home = [] then Inl HomeNotSet else Inr (Clean home))
      else if HasPrefix arg ''~/'' then
        (if home = [] then Inl HomeNotSet else Inr (Clean (Join home (drop 2 arg))))
      else if \<not> HasPrefix arg ''/'' then Inr (Clean (Join cwd arg))
      else Inr (Clean arg))"

definition ResolveTarget :: "sys \<Rightarrow> string \<Rightarrow> string \<Rightarrow> string \<Rightarrow> (error + string) option" where
  "ResolveTarget env arg0 cwd home =
     (let arg = TrimSpace arg0 in
      if arg = [] then Some (Inl MissingTarget)
      else if isWindowsPath env arg then Some (resolveWindowsPath env arg)
      else if looksLikeWindowsDriveNoSlash env arg then resolveWindowsPathCollapsed env arg
      else (case resolveLinuxLike arg cwd home of
              Inl err \<Rightarrow> Some (Inl err)
            | Inr p \<Rightarrow> Some (statDir env p)))"

subsection \<open>Example systems\<close>

text \<open>
  A system given by its listings and by what \<open>os.Stat\<close> says of each path, with the tables
  of package \<open>unicode\<close> as they are on ASCII runes. The examples below never consult them
  on another rune: their letters are ASCII, and two equal runes fold together without the
  table.
\<close>

definition asciiUpper :: "rune \<Rightarrow> bool" where
  "asciiUpper r = (0x41 \<le> r \<and> r \<le> 0x5A)"

definition asciiLetter :: "rune \<Rightarrow> bool" where
  "asciiLetter r = (asciiUpper r \<or> (0x61 \<le> r \<and> r \<le> 0x7A))"

definition exampleSys :: "(string \<times> dirEntry list) list \<Rightarrow> (string \<times> bool) list \<Rightarrow> sys" where
  "exampleSys listings stats =
     \<lparr>ReadDir = map_of listings, Stat = map_of stats, IsLetter = asciiLetter,
      ToLower = (\<lambda>r. if asciiUpper r then r + 0x20 else r), FoldOrbit = (\<lambda>a b. False)\<rparr>"

definition entry :: "string \<Rightarrow> dirEntry" where
  "entry n = \<lparr>Name = n, IsDir = True\<rparr>"

text \<open>
  The mount \<open>/mnt/c\<close> with the two directories \<open>USERS\<close> and \<open>Users\<close>.
\<close>

definition usersSys :: sys where
  "usersSys = exampleSys
     [(''/mnt'', [entry ''c'']), (''/mnt/c'', [entry ''USERS'', entry ''Users''])]
     [(''/mnt/c'', True), (''/mnt/c/USERS'', True), (''/mnt/c/Users'', True)]"

text \<open>
  Four mount parents: \<open>/mnt\<close> lists \<open>C\<close>, \<open>c\<close> and \<open>d\<close>; \<open>/media\<close> lists \<open>D\<close>;
  \<open>/auto\<close> and \<open>/none\<close> list nothing, and \<open>/auto/c\<close> is a directory all the same
  while \<open>/none/c\<close> is a file.
\<close>

definition mntSys :: sys where
  "mntSys = exampleSys
     [(''/mnt'', [entry ''C'', entry ''c'', entry ''d'']), (''/media'', [entry ''D'']), (''/auto'', []), (''/none'', [])]
     [(''/auto/c'', True), (''/none/c'', False)]"

text \<open>
  A drive with \<open>Projects\<close>, \<open>ProjectsX\<close> and other names that share a prefix with them;
  \<open>Proj\<close> is a file.
\<close>

definition projectsSys :: sys where
  "projectsSys = exampleSys
     [(''/mnt'', [entry ''c'']),
      (''/mnt/c'', [entry ''Pro'', entry ''Projects'', entry ''ProjectsX'', entry ''projects'',
                    \<lparr>Name = ''Proj'', IsDir = False\<rparr>]),
      (''/mnt/c/Projects'', [entry ''Xrepo'', entry ''repo'']),
      (''/mnt/c/ProjectsX'', [entry ''other''])]
     [(''/mnt/c'', True), (''/mnt/c/Proj'', False), (''/mnt/c/Projects/repo'', True),
      (''/mnt/c/Projects/Xrepo'', True)]"

text \<open>
  An entry that is not a directory itself: a file or a symbolic link. On the drive of
  \<open>linkSys\<close>, \<open>Projects\<close> is a link to a directory, \<open>ProjectsRe\<close> is a file and
  \<open>Projectsr\<close> is a link to nothing; \<open>Pro\<close> and \<open>projects\<close> are directories, and
  \<open>projects\<close> cannot be listed.
\<close>

definition other :: "string \<Rightarrow> dirEntry" where
  "other n = \<lparr>Name = n, IsDir = False\<rparr>"

definition linkSys :: sys where
  "linkSys = exampleSys
     [(''/mnt'', [entry ''c'']),
      (''/mnt/c'', [entry ''Pro'', other ''Projects'', other ''ProjectsRe'', other ''Projectsr'',
                    entry ''projects'']),
      (''/mnt/c/Projects'', [entry ''repo''])]
     [(''/mnt/c'', True), (''/mnt/c/Projects'', True), (''/mnt/c/ProjectsRe'', False),
      (''/mnt/c/Projects/repo'', True)]"

text \<open>
  The first \<open>n\<close> passes of the loop of \<open>resolveWindowsPathCollapsed\<close>: where the loop
  stands after them, or what it returned before.
\<close>

fun passes :: "sys \<Rightarrow> nat \<Rightarrow> string \<Rightarrow> string \<Rightarrow> pass" where
  "passes env 0 cur tail = Again cur tail"
| "passes env (Suc n) cur tail =
     (case collapsedPass env cur tail of
        Return r \<Rightarrow> Return r
      | Again cur' tail' \<Rightarrow> passes env n cur' tail')"

text \<open>
  \<open>reached env d segs names\<close>: from the directory \<open>d\<close>, the names lead through one
  entry for each segment; each is an entry of the listing of the directory reached so far,
  equals its segment under case folding and resolves to a directory, following links: the
  entry is a directory itself, or \<open>os.Stat\<close> of its path succeeds and says directory.
  \<open>chainScore\<close> is the sum of the scores of the segments against these names.
\<close>

fun reached :: "sys \<Rightarrow> string \<Rightarrow> string list \<Rightarrow> string list \<Rightarrow> bool" where
  "reached env d [] [] = True"
| "reached env d (seg # segs) (n # names) =
     (case ReadDir env d of
        None \<Rightarrow> False
      | Some ents \<Rightarrow>
          (\<exists>e \<in> set ents. Name e = n \<and> EqualFold env n seg
                           \<and> (IsDir e \<or> Stat env (Join d n) = Some True))
          \<and> reached env (Join d n) segs names)"
| "reached env d _ _ = False"

definition chainScore :: "string list \<Rightarrow> string list \<Rightarrow> int" where
  "chainScore segs names = sum_list (map (\<lambda>(seg, n). caseScore seg n) (zip segs names))"

text \<open>
  A drive with \<open>Foo\<close> and \<open>foo\<close>, of which only \<open>foo\<close> can be listed.
\<close>

definition pruneSys :: sys where
  "pruneSys = exampleSys
     [(''/mnt'', [entry ''c'']),
      (''/mnt/c'', [entry ''Foo'', entry ''foo'']),
      (''/mnt/c/foo'', [entry ''bar''])]
     [(''/mnt/c'', True), (''/mnt/c/foo/bar'', True)]"

text \<open>
  A system with the root directory and the home directory \<open>/home/me\<close>, in which
  \<open>C:\<close> is a directory.
\<close>

definition homeSys :: sys where
  "homeSys = exampleSys
     [(''/mnt'', [entry ''c''])]
     [(''/'', True), (''/mnt/c'', True), (''/home/me'', True), (''/home/me/C:'', True)]"

text \<open>
  A plain name: what a segment is, and what the name of a directory entry is.
\<close>

definition plainName :: "string \<Rightarrow> bool" where
  "plainName n = (n \<noteq> [] \<and> n \<noteq> ''.'' \<and> n \<noteq> ''..'' \<and> CHR ''/'' \<notin> set n)"

text \<open>
  \<open>realChain env root segs\<close>: the segments name a chain of real directories from
  \<open>root\<close>: \<open>os.Stat\<close> says directory of \<open>root\<close> and of every path the segments lead to.
  \<open>listedChain env root segs\<close> asks more: every directory of the chain can be listed, its
  listing holds the next segment, exactly, as an entry that is a directory or a link to one,
  and the path at the end is a directory.
  \<open>unambiguous env root segs\<close>: along that chain, an entry that decodes to the same runes as
  the segment is the segment. \<open>maxScore segs\<close> is the number of runes of all segments.
\<close>

fun realChain :: "sys \<Rightarrow> string \<Rightarrow> string list \<Rightarrow> bool" where
  "realChain env d [] = (Stat env d = Some True)"
| "realChain env d (seg # segs) = (Stat env d = Some True \<and> realChain env (Join d seg) segs)"

definition listedChain :: "sys \<Rightarrow> string \<Rightarrow> string list \<Rightarrow> bool" where
  "listedChain env root segs =
     (reached env root segs segs \<and> Stat env (foldl Join root segs) = Some True)"

fun unambiguous :: "sys \<Rightarrow> string \<Rightarrow> string list \<Rightarrow> bool" where
  "unambiguous env d [] = True"
| "unambiguous env d (seg # segs) =
     ((case ReadDir env d of
         None \<Rightarrow> True
       | Some ents \<Rightarrow> (\<forall>e \<in> set ents. runes (Name e) = runes seg \<longrightarrow> Name e = seg))
      \<and> unambiguous env (Join d seg) segs)"

definition maxScore :: "string list \<Rightarrow> int" where
  "maxScore segs = sum_list (map (\<lambda>seg. int (length (runes seg))) segs)"

text \<open>
  A string is valid UTF-8 when encoding the runes it decodes to gives the string back: an
  invalid byte decodes to U+FFFD, which encodes to three other bytes.
\<close>

definition validUTF8 :: "string \<Rightarrow> bool" where
  "validUTF8 s = (concat (map encodeRune (runes s)) = s)"

text \<open>
  A drive with two directories whose names are the single bytes 0x80 and 0x81, neither of
  them UTF-8.
\<close>

definition rawSys :: sys where
  "rawSys = exampleSys
     [(''/mnt'', [entry ''c'']), (''/mnt/c'', [entry [CHR 0x80], entry [CHR 0x81]])]
     [(''/mnt/c'', True), (''/mnt/c/'' @ [CHR 0x80], True), (''/mnt/c/'' @ [CHR 0x81], True)]"

text \<open>
  A drive with the directories \<open>Foo\<close> and \<open>foo\<close>, each holding a directory \<open>bar\<close>;
  \<open>Foo\<close> can be entered but not listed.
\<close>

definition unlistedSys :: sys where
  "unlistedSys = exampleSys
     [(''/mnt'', [entry ''c'']),
      (''/mnt/c'', [entry ''Foo'', entry ''foo'']),
      (''/mnt/c/foo'', [entry ''bar''])]
     [(''/mnt/c'', True), (''/mnt/c/Foo'', True), (''/mnt/c/Foo/bar'', True),
      (''/mnt/c/foo'', True), (''/mnt/c/foo/bar'', True)]"

section \<open>Properties\<close>

subsection \<open>isDirFollowSymlink\<close>

text \<open>An entry resolves to a directory when it is one, or \<open>os.Stat\<close> reaches one through it.\<close>

lemma isDirFollowSymlink_True:
  "isDirFollowSymlink env full de = Inr True \<longleftrightarrow> IsDir de \<or> Stat env full = Some True"
  by (auto simp: isDirFollowSymlink_def split: option.splits)

subsection \<open>Case Scorer\<close>

lemma scoreLoop_filter:
  "foldl (\<lambda>score i. if P i then score + 1 else score) (acc::int) xs
     = acc + int (length (filter P xs))"
  by (induction xs arbitrary: acc) simp_all

lemma filter_upt_card:
  "length (filter P [0 ..< n]) = card {i. i < n \<and> P i}"
proof -
  have "distinct (filter P [0 ..< n])" by simp
  then have "card (set (filter P [0 ..< n])) = length (filter P [0 ..< n])"
    by (rule distinct_card)
  moreover have "set (filter P [0 ..< n]) = {i. i < n \<and> P i}" by auto
  ultimately show ?thesis by simp
qed

lemma caseScore_card:
  "caseScore a b
     = int (card {i. i < min (length (runes a)) (length (runes b)) \<and> runes a ! i = runes b ! i})"
proof -
  have n: "(if length (runes b) < length (runes a) then length (runes b) else length (runes a))
             = min (length (runes a)) (length (runes b))"
    by simp
  show ?thesis
    unfolding caseScore_def Let_def n by (simp add: scoreLoop_filter filter_upt_card)
qed

text \<open>
  C3. For all strings \<open>a\<close> and \<open>b\<close>, \<open>caseScore a b\<close> is a non-negative integer, the number
  of positions \<open>i\<close> below the length of the shorter string at which the two strings have the
  same character; what the longer string has beyond that counts for nothing. Characters and
  lengths are those of the rune sequences the function compares.
\<close>

theorem caseScore_counts_equal_positions:
  "0 \<le> caseScore a b \<and>
   caseScore a b
     = int (card {i. i < min (length (runes a)) (length (runes b)) \<and> runes a ! i = runes b ! i})"
  by (simp add: caseScore_card)

text \<open>
  C4, as stated: the score of \<open>AB\<close> against \<open>ab\<close> and against \<open>abcdef\<close> is 2. It is not:
  the comparison is case-sensitive, and \<open>A\<close> differs from \<open>a\<close> as \<open>B\<close> does from \<open>b\<close>.
\<close>

theorem caseScore_AB_ab_not_2:
  "caseScore ''AB'' ''ab'' \<noteq> 2"
  by code_simp

text \<open>
  C4, amended: the score of \<open>AB\<close> against \<open>ab\<close> equals the score of \<open>AB\<close> against
  \<open>abcdef\<close>, and both are 0; on the score alone the two candidates tie.
\<close>

theorem caseScore_AB_ignores_excess_length:
  "caseScore ''AB'' ''ab'' = caseScore ''AB'' ''abcdef'' \<and> caseScore ''AB'' ''ab'' = 0
   \<and> caseScore ''AB'' ''abcdef'' = 0"
  by code_simp

subsection \<open>The stable sort\<close>

lemma set_insertStable: "set (insertStable lessf x ys) = insert x (set ys)"
  by (induction ys) auto

lemma hd_insertStable:
  "hd (insertStable lessf x ys) = (if ys \<noteq> [] \<and> lessf (hd ys) x then hd ys else x)"
  by (cases ys) simp_all

lemma SliceStable_Cons: "SliceStable lessf (x # xs) = insertStable lessf x (SliceStable lessf xs)"
  by (simp add: SliceStable_def)

lemma set_SliceStable: "set (SliceStable lessf xs) = set xs"
  by (induction xs) (simp_all add: SliceStable_def set_insertStable)

lemma SliceStable_Nil_iff: "SliceStable lessf xs = [] \<longleftrightarrow> xs = []"
  using set_SliceStable [of lessf xs] by (metis set_empty)

lemma hd_SliceStable_first:
  assumes asym: "\<And>a b. lessf a b \<Longrightarrow> \<not> lessf b a"
      and ntr: "\<And>a b c. \<not> lessf a b \<Longrightarrow> \<not> lessf b c \<Longrightarrow> \<not> lessf a c"
      and ne: "xs \<noteq> []"
  shows "hd (SliceStable lessf xs) \<in> set xs \<and> (\<forall>y \<in> set xs. \<not> lessf y (hd (SliceStable lessf xs)))"
  using ne
proof (induction xs)
  case Nil
  then show ?case by simp
next
  case (Cons x xs)
  show ?case
  proof (cases "xs = []")
    case True
    then show ?thesis using asym [of x x] by (auto simp: SliceStable_def)
  next
    case False
    let ?h = "hd (SliceStable lessf xs)"
    from Cons.IH False have h: "?h \<in> set xs" and hmin: "\<forall>y \<in> set xs. \<not> lessf y ?h"
      by simp_all
    have ne': "SliceStable lessf xs \<noteq> []" using False by (simp add: SliceStable_Nil_iff)
    show ?thesis
    proof (cases "lessf ?h x")
      case True
      then have "hd (SliceStable lessf (x # xs)) = ?h"
        using ne' by (simp add: SliceStable_Cons hd_insertStable)
      moreover have "\<not> lessf x ?h" using True asym by blast
      ultimately show ?thesis using h hmin by simp
    next
      case nl: False
      then have eq: "hd (SliceStable lessf (x # xs)) = x"
        by (simp add: SliceStable_Cons hd_insertStable)
      have "\<not> lessf y x" if "y \<in> set xs" for y
        using hmin that nl ntr by blast
      moreover have "\<not> lessf x x" using asym by blast
      ultimately show ?thesis using eq by simp
    qed
  qed
qed

subsection \<open>The order of strings\<close>

text \<open>The order on strings is the lexicographic order of their bytes, as Go's is.\<close>

lemma byte_less: "byte x < byte y \<longleftrightarrow> x < y"
proof -
  have "byte c = int (of_char c)" for c
    by (simp add: byte_def of_nat_of_char)
  then show ?thesis by (simp add: less_char_def)
qed

lemma byte_eq: "byte x = byte y \<longleftrightarrow> x = y"
  by (simp add: byte_def)

lemma string_less_bytewise:
  "\<not> s < []" "[] < y # t"
  "x # s < y # t \<longleftrightarrow> byte x < byte y \<or> (byte x = byte y \<and> s < t)"
  by (simp_all add: byte_less byte_eq)

subsection \<open>Candidate Selector\<close>

lemma candidateLess_first:
  assumes "cands \<noteq> []"
  shows "hd (SliceStable candidateLess cands) \<in> set cands \<and>
         (\<forall>c' \<in> set cands. \<not> candidateLess c' (hd (SliceStable candidateLess cands)))"
proof (rule hd_SliceStable_first [OF _ _ assms])
  show "\<And>a b. candidateLess a b \<Longrightarrow> \<not> candidateLess b a"
    by (auto simp: candidateLess_def split: if_splits)
  show "\<And>a b c. \<not> candidateLess a b \<Longrightarrow> \<not> candidateLess b c \<Longrightarrow> \<not> candidateLess a c"
    by (auto simp: candidateLess_def split: if_splits)
qed

text \<open>
  C1. When the mount root is found and the Explorer produces a non-empty candidate list,
  \<open>resolveWindowsPath\<close> returns the full path of a candidate that is first under the
  order score descending, then full path ascending in the byte order of strings: every
  candidate has a smaller score, or the same score and a path that is not smaller. With
  \<open>/mnt/c/USERS\<close> and \<open>/mnt/c/Users\<close> tied on score, \<open>/mnt/c/USERS\<close> is returned.
\<close>

theorem resolveWindowsPath_returns_first_candidate:
  assumes len: "2 \<le> length win"
      and mnt: "pickCaseInsensitiveEntry env ''/mnt'' (encodeRune (ToLower env (byte (win ! 0)))) = Inr mntRoot"
      and ex: "exploreCandidates env (Join ''/mnt'' mntRoot) (segments win) = Inr cands"
      and ne: "cands \<noteq> []"
  shows "\<exists>c \<in> set cands. resolveWindowsPath env win = Inr (fullPath c) \<and>
           (\<forall>c' \<in> set cands. score c' < score c \<or> (score c' = score c \<and> fullPath c \<le> fullPath c'))"
proof -
  let ?c = "hd (SliceStable candidateLess cands)"
  have res: "resolveWindowsPath env win = Inr (fullPath ?c)"
    using len mnt ex ne by (simp add: resolveWindowsPath_def Let_def)
  from candidateLess_first [OF ne]
  have mem: "?c \<in> set cands" and first: "\<forall>c' \<in> set cands. \<not> candidateLess c' ?c"
    by simp_all
  have "score c' < score ?c \<or> (score c' = score ?c \<and> fullPath ?c \<le> fullPath c')"
    if "c' \<in> set cands" for c'
    using first that by (auto simp: candidateLess_def split: if_splits)
  with res mem show ?thesis by blast
qed

theorem resolveWindowsPath_returns_first_candidate_witness:
  "exploreCandidates usersSys ''/mnt/c'' [''USErs'']
     = Inr [\<lparr>fullPath = ''/mnt/c/USERS'', score = 3\<rparr>, \<lparr>fullPath = ''/mnt/c/Users'', score = 3\<rparr>]
   \<and> resolveWindowsPath usersSys ''C:/USErs'' = Inr ''/mnt/c/USERS''"
proof -
  let ?a = "\<lparr>fullPath = ''/mnt/c/USERS'', score = 3\<rparr>"
  let ?b = "\<lparr>fullPath = ''/mnt/c/Users'', score = 3\<rparr>"
  have len: "2 \<le> length ''C:/USErs''" by simp
  have mnt: "pickCaseInsensitiveEntry usersSys ''/mnt''
               (encodeRune (ToLower usersSys (byte (''C:/USErs'' ! 0)))) = Inr ''c''"
    by code_simp
  have root: "Join ''/mnt'' ''c'' = ''/mnt/c''" by code_simp
  have segs: "segments ''C:/USErs'' = [''USErs'']" by code_simp
  have ex: "exploreCandidates usersSys ''/mnt/c'' [''USErs''] = Inr [?a, ?b]" by code_simp
  have ex': "exploreCandidates usersSys (Join ''/mnt'' ''c'') (segments ''C:/USErs'') = Inr [?a, ?b]"
    unfolding root segs by (rule ex)
  have ne: "[?a, ?b] \<noteq> []" by simp
  from resolveWindowsPath_returns_first_candidate [OF len mnt ex' ne]
  obtain c where c: "c \<in> set [?a, ?b]"
    and res: "resolveWindowsPath usersSys ''C:/USErs'' = Inr (fullPath c)"
    and first: "\<forall>c' \<in> set [?a, ?b]. score c' < score c \<or> (score c' = score c \<and> fullPath c \<le> fullPath c')"
    by blast
  have nle: "\<not> ''/mnt/c/Users'' \<le> ''/mnt/c/USERS''" by simp
  have "c = ?a"
  proof (rule ccontr)
    assume "c \<noteq> ?a"
    with c have "c = ?b" by simp
    with first nle show False by simp
  qed
  with res ex show ?thesis by simp
qed

subsection \<open>Mount Root Locator\<close>

lemma pairLess_first:
  assumes "ms \<noteq> []"
  shows "hd (SliceStable pairLess ms) \<in> set ms \<and>
         (\<forall>p' \<in> set ms. \<not> pairLess p' (hd (SliceStable pairLess ms)))"
proof (rule hd_SliceStable_first [OF _ _ assms])
  show "\<And>a b. pairLess a b \<Longrightarrow> \<not> pairLess b a"
    by (auto simp: pairLess_def split: if_splits)
  show "\<And>a b c. \<not> pairLess a b \<Longrightarrow> \<not> pairLess b c \<Longrightarrow> \<not> pairLess a c"
    by (auto simp: pairLess_def split: if_splits)
qed

lemma pickMatches_filter:
  "pickMatches env want ents
     = map (\<lambda>e. \<lparr>pName = Name e, pScore = caseScore want (Name e)\<rparr>)
         (filter (\<lambda>e. EqualFold env (Name e) want) ents)"
  by (induction ents) (simp_all add: Let_def)

text \<open>
  C7. When the listing of the mount parent succeeds, the Mount Root Locator collects exactly
  the entries whose name equals the label under case folding, each with its score. If there
  is one, it returns the name of a match that is first under score descending, then name
  ascending. If there is none, it returns the lowercase label exactly when \<open>os.Stat\<close> of
  that entry under the mount parent succeeds and says directory, and otherwise fails with
  the no-match error.
\<close>

theorem pickCaseInsensitiveEntry_selects:
  assumes "ReadDir env d = Some ents"
  shows "pickMatches env want ents
           = map (\<lambda>e. \<lparr>pName = Name e, pScore = caseScore want (Name e)\<rparr>)
               (filter (\<lambda>e. EqualFold env (Name e) want) ents)
         \<and> (pickMatches env want ents \<noteq> [] \<longrightarrow>
              (\<exists>p \<in> set (pickMatches env want ents).
                 pickCaseInsensitiveEntry env d want = Inr (pName p) \<and>
                 (\<forall>p' \<in> set (pickMatches env want ents).
                    pScore p' < pScore p \<or> (pScore p' = pScore p \<and> pName p \<le> pName p'))))
         \<and> (pickMatches env want ents = [] \<longrightarrow>
              (pickCaseInsensitiveEntry env d want = Inr (strToLower env want)
                 \<longleftrightarrow> Stat env (Join d (strToLower env want)) = Some True) \<and>
              (Stat env (Join d (strToLower env want)) \<noteq> Some True \<longrightarrow>
                 pickCaseInsensitiveEntry env d want = Inl (NoMatch want d)))"
proof (intro conjI impI)
  show "pickMatches env want ents
          = map (\<lambda>e. \<lparr>pName = Name e, pScore = caseScore want (Name e)\<rparr>)
              (filter (\<lambda>e. EqualFold env (Name e) want) ents)"
    by (rule pickMatches_filter)
next
  let ?ms = "pickMatches env want ents"
  let ?p = "hd (SliceStable pairLess ?ms)"
  assume ne: "?ms \<noteq> []"
  then have res: "pickCaseInsensitiveEntry env d want = Inr (pName ?p)"
    using assms by (simp add: pickCaseInsensitiveEntry_def Let_def)
  from pairLess_first [OF ne]
  have mem: "?p \<in> set ?ms" and first: "\<forall>p' \<in> set ?ms. \<not> pairLess p' ?p"
    by simp_all
  have "pScore p' < pScore ?p \<or> (pScore p' = pScore ?p \<and> pName ?p \<le> pName p')"
    if "p' \<in> set ?ms" for p'
    using first that by (auto simp: pairLess_def split: if_splits)
  with res mem
  show "\<exists>p \<in> set ?ms. pickCaseInsensitiveEntry env d want = Inr (pName p) \<and>
          (\<forall>p' \<in> set ?ms. pScore p' < pScore p \<or> (pScore p' = pScore p \<and> pName p \<le> pName p'))"
    by blast
next
  assume "pickMatches env want ents = []"
  then show "(pickCaseInsensitiveEntry env d want = Inr (strToLower env want))
               = (Stat env (Join d (strToLower env want)) = Some True)"
    using assms by (simp add: pickCaseInsensitiveEntry_def Let_def)
next
  assume "pickMatches env want ents = []"
     and "Stat env (Join d (strToLower env want)) \<noteq> Some True"
  then show "pickCaseInsensitiveEntry env d want = Inl (NoMatch want d)"
    using assms by (simp add: pickCaseInsensitiveEntry_def Let_def)
qed

theorem pickCaseInsensitiveEntry_selects_witness:
  "pickCaseInsensitiveEntry mntSys ''/mnt'' ''c'' = Inr ''c''
   \<and> pickCaseInsensitiveEntry mntSys ''/auto'' ''c'' = Inr ''c''
   \<and> pickCaseInsensitiveEntry mntSys ''/none'' ''c'' = Inl (NoMatch ''c'' ''/none'')"
proof -
  let ?C = "\<lparr>pName = ''C'', pScore = 0\<rparr>"
  let ?c = "\<lparr>pName = ''c'', pScore = 1\<rparr>"
  have l1: "ReadDir mntSys ''/mnt'' = Some [entry ''C'', entry ''c'', entry ''d'']" by code_simp
  have m1: "pickMatches mntSys ''c'' [entry ''C'', entry ''c'', entry ''d''] = [?C, ?c]" by code_simp
  from pickCaseInsensitiveEntry_selects [OF l1, of "''c''"]
  obtain p where p: "p \<in> set [?C, ?c]"
    and res: "pickCaseInsensitiveEntry mntSys ''/mnt'' ''c'' = Inr (pName p)"
    and first: "\<forall>p' \<in> set [?C, ?c]. pScore p' < pScore p \<or> (pScore p' = pScore p \<and> pName p \<le> pName p')"
    unfolding m1 by blast
  have "p = ?c"
  proof (rule ccontr)
    assume "p \<noteq> ?c"
    with p have "p = ?C" by simp
    with first show False by simp
  qed
  with res have r1: "pickCaseInsensitiveEntry mntSys ''/mnt'' ''c'' = Inr ''c''" by simp
  have l2: "ReadDir mntSys ''/auto'' = Some []" by code_simp
  have low: "strToLower mntSys ''c'' = ''c''" by code_simp
  have s2: "Stat mntSys (Join ''/auto'' ''c'') = Some True" by code_simp
  from pickCaseInsensitiveEntry_selects [OF l2, of "''c''"] s2
  have r2: "pickCaseInsensitiveEntry mntSys ''/auto'' ''c'' = Inr ''c''"
    by (simp add: low)
  have l3: "ReadDir mntSys ''/none'' = Some []" by code_simp
  have s3: "Stat mntSys (Join ''/none'' ''c'') \<noteq> Some True" by code_simp
  from pickCaseInsensitiveEntry_selects [OF l3, of "''c''"] s3
  have r3: "pickCaseInsensitiveEntry mntSys ''/none'' ''c'' = Inl (NoMatch ''c'' ''/none'')"
    by (simp add: low)
  from r1 r2 r3 show ?thesis by simp
qed


subsection \<open>Collapsed-Path Greedy Matcher\<close>

lemma candLess_first:
  assumes "ms \<noteq> []"
  shows "hd (SliceStable candLess ms) \<in> set ms \<and>
         (\<forall>m' \<in> set ms. \<not> candLess m' (hd (SliceStable candLess ms)))"
proof (rule hd_SliceStable_first [OF _ _ assms])
  show "\<And>a b. candLess a b \<Longrightarrow> \<not> candLess b a"
    by (auto simp: candLess_def split: if_splits)
  show "\<And>a b c. \<not> candLess a b \<Longrightarrow> \<not> candLess b c \<Longrightarrow> \<not> candLess a c"
    by (auto simp: candLess_def split: if_splits)
qed

lemma collapsedMatches_filter:
  "collapsedMatches env cur tail ents
     = map (\<lambda>e. \<lparr>cName = Name e, plen = length (Name e),
                  cScore = caseScore (take (length (Name e)) tail) (Name e)\<rparr>)
         (filter (\<lambda>e. length (Name e) \<le> length tail
                     \<and> EqualFold env (take (length (Name e)) tail) (Name e)
                     \<and> (IsDir e \<or> Stat env (Join cur (Name e)) = Some True)) ents)"
  unfolding isDirFollowSymlink_True [symmetric]
  by (induction ents) (auto simp: Let_def split: sum.splits)



lemma passes_loop:
  "passes env n cur tail = Again cur' tail' \<Longrightarrow>
     collapsedLoop env cur tail = collapsedLoop env cur' tail'"
proof (induction n arbitrary: cur tail)
  case 0
  then show ?case by simp
next
  case (Suc n)
  show ?case
  proof (cases "collapsedPass env cur tail")
    case (Return r)
    with Suc.prems show ?thesis by simp
  next
    case (Again c t)
    with Suc.prems have "passes env n c t = Again cur' tail'" by simp
    then have "collapsedLoop env c t = collapsedLoop env cur' tail'" by (rule Suc.IH)
    moreover have "collapsedLoop env cur tail = collapsedLoop env c t"
      using Again by (subst collapsedLoop.simps) simp
    ultimately show ?thesis by simp
  qed
qed

lemma collapsedPass_chosen:
  assumes "tail \<noteq> []" "hd tail \<noteq> CHR ''/''" "hd tail \<noteq> backslash"
      and "ReadDir env cur = Some ents"
      and "collapsedMatches env cur tail ents \<noteq> []"
  shows "collapsedPass env cur tail
           = Again (Join cur (cName (hd (SliceStable candLess (collapsedMatches env cur tail ents)))))
                   (drop (plen (hd (SliceStable candLess (collapsedMatches env cur tail ents)))) tail)"
  using assms by (simp add: collapsedPass_def Let_def)

lemma collapsedPass_no_match:
  assumes "tail \<noteq> []" "hd tail \<noteq> CHR ''/''" "hd tail \<noteq> backslash"
      and "ReadDir env cur = Some ents"
      and "collapsedMatches env cur tail ents = []"
  shows "collapsedPass env cur tail = Return (Inl (CannotSegment tail (argHead tail) cur))"
  using assms by (simp add: collapsedPass_def Let_def)

lemma TrimLeft_hd: "TrimLeft tail cutset \<noteq> [] \<Longrightarrow> hd (TrimLeft tail cutset) \<notin> set cutset"
  unfolding TrimLeft_def using hd_dropWhile [of "\<lambda>c. c \<in> set cutset" tail] by simp

lemma collapsedLoop_strip:
  "collapsedLoop env cur tail = collapsedLoop env cur (TrimLeft tail [backslash, CHR ''/''])"
proof (cases tail)
  case Nil
  then show ?thesis by (simp add: TrimLeft_def)
next
  case (Cons x xs)
  show ?thesis
  proof (cases "x = CHR ''/'' \<or> x = backslash")
    case True
    with Cons have "collapsedPass env cur tail = Again cur (TrimLeft tail [backslash, CHR ''/''])"
      by (simp add: collapsedPass_def)
    then show ?thesis by (subst collapsedLoop.simps) simp
  next
    case False
    with Cons have "TrimLeft tail [backslash, CHR ''/''] = tail"
      by (simp add: TrimLeft_def)
    then show ?thesis by simp
  qed
qed

text \<open>
  C2. At a step of the Greedy Matcher, let the tail that remains when the leading separators
  are stripped not be empty, and let the listing of the current directory be read. The match
  candidates are exactly the entries whose name is no longer than that tail, equals the
  prefix of the tail of the same length under case folding, and resolves to a directory,
  following links: the entry is a directory itself, or \<open>os.Stat\<close> of its path succeeds and
  says directory. If there is one, the chosen candidate is first under longest prefix, then
  highest score, then name ascending; the loop goes on in the chosen entry with exactly the
  length of its name dropped from the tail.
\<close>

theorem collapsedPass_chooses_longest_prefix:
  assumes "TrimLeft tail0 [backslash, CHR ''/''] = tail" and "tail \<noteq> []"
      and "ReadDir env cur = Some ents"
  shows "collapsedMatches env cur tail ents
           = map (\<lambda>e. \<lparr>cName = Name e, plen = length (Name e),
                        cScore = caseScore (take (length (Name e)) tail) (Name e)\<rparr>)
               (filter (\<lambda>e. length (Name e) \<le> length tail
                           \<and> EqualFold env (take (length (Name e)) tail) (Name e)
                           \<and> (IsDir e \<or> Stat env (Join cur (Name e)) = Some True)) ents)
         \<and> (collapsedMatches env cur tail ents \<noteq> [] \<longrightarrow>
              (\<exists>m \<in> set (collapsedMatches env cur tail ents).
                 (\<forall>m' \<in> set (collapsedMatches env cur tail ents).
                    plen m' < plen m \<or>
                    (plen m' = plen m \<and>
                      (cScore m' < cScore m \<or> (cScore m' = cScore m \<and> cName m \<le> cName m'))))
                 \<and> plen m = length (cName m) \<and> plen m \<le> length tail
                 \<and> collapsedPass env cur tail = Again (Join cur (cName m)) (drop (plen m) tail)
                 \<and> collapsedLoop env cur tail0
                     = collapsedLoop env (Join cur (cName m)) (drop (plen m) tail)))"
proof (intro conjI impI)
  show "collapsedMatches env cur tail ents
          = map (\<lambda>e. \<lparr>cName = Name e, plen = length (Name e),
                       cScore = caseScore (take (length (Name e)) tail) (Name e)\<rparr>)
              (filter (\<lambda>e. length (Name e) \<le> length tail
                          \<and> EqualFold env (take (length (Name e)) tail) (Name e)
                          \<and> (IsDir e \<or> Stat env (Join cur (Name e)) = Some True)) ents)"
    by (rule collapsedMatches_filter)
next
  let ?ms = "collapsedMatches env cur tail ents"
  let ?m = "hd (SliceStable candLess ?ms)"
  assume ne: "?ms \<noteq> []"
  have nosep: "hd tail \<noteq> CHR ''/''" "hd tail \<noteq> backslash"
    using TrimLeft_hd [of tail0 "[backslash, CHR ''/'']"] assms(1,2) by auto
  from candLess_first [OF ne]
  have mem: "?m \<in> set ?ms" and first: "\<forall>m' \<in> set ?ms. \<not> candLess m' ?m"
    by simp_all
  have ord: "plen m' < plen ?m \<or>
          (plen m' = plen ?m \<and>
            (cScore m' < cScore ?m \<or> (cScore m' = cScore ?m \<and> cName ?m \<le> cName m')))"
    if "m' \<in> set ?ms" for m'
    using first that by (auto simp: candLess_def split: if_splits)
  have len: "plen ?m = length (cName ?m) \<and> plen ?m \<le> length tail"
    using mem unfolding collapsedMatches_filter [of env cur tail ents] by auto
  have pass: "collapsedPass env cur tail = Again (Join cur (cName ?m)) (drop (plen ?m) tail)"
    using assms(2) nosep assms(3) ne by (rule collapsedPass_chosen)
  have "collapsedLoop env cur tail0 = collapsedLoop env cur tail"
    using collapsedLoop_strip [of env cur tail0] assms(1) by simp
  also have "\<dots> = collapsedLoop env (Join cur (cName ?m)) (drop (plen ?m) tail)"
    using pass by (subst collapsedLoop.simps) simp
  finally have loop: "collapsedLoop env cur tail0
                        = collapsedLoop env (Join cur (cName ?m)) (drop (plen ?m) tail)" .
  from mem ord len pass loop
  show "\<exists>m \<in> set ?ms.
          (\<forall>m' \<in> set ?ms.
             plen m' < plen m \<or>
             (plen m' = plen m \<and>
               (cScore m' < cScore m \<or> (cScore m' = cScore m \<and> cName m \<le> cName m'))))
          \<and> plen m = length (cName m) \<and> plen m \<le> length tail
          \<and> collapsedPass env cur tail = Again (Join cur (cName m)) (drop (plen m) tail)
          \<and> collapsedLoop env cur tail0
              = collapsedLoop env (Join cur (cName m)) (drop (plen m) tail)"
    by blast
qed

theorem collapsedPass_chooses_longest_prefix_witness:
  "TrimLeft ''/Projectsrepo'' [backslash, CHR ''/''] = ''Projectsrepo''
   \<and> ReadDir linkSys ''/mnt/c''
       = Some [entry ''Pro'', other ''Projects'', other ''ProjectsRe'', other ''Projectsr'',
               entry ''projects'']
   \<and> Stat linkSys ''/mnt/c/Projects'' = Some True
   \<and> Stat linkSys ''/mnt/c/ProjectsRe'' = Some False
   \<and> Stat linkSys ''/mnt/c/Projectsr'' = None
   \<and> collapsedMatches linkSys ''/mnt/c'' ''Projectsrepo''
        [entry ''Pro'', other ''Projects'', other ''ProjectsRe'', other ''Projectsr'',
         entry ''projects'']
       = [\<lparr>cName = ''Pro'', plen = 3, cScore = 3\<rparr>, \<lparr>cName = ''Projects'', plen = 8, cScore = 8\<rparr>,
          \<lparr>cName = ''projects'', plen = 8, cScore = 7\<rparr>]
   \<and> collapsedPass linkSys ''/mnt/c'' ''Projectsrepo'' = Again ''/mnt/c/Projects'' ''repo''
   \<and> collapsedLoop linkSys ''/mnt/c'' ''/Projectsrepo'' = Some (Inr ''/mnt/c/Projects/repo'')"
proof -
  let ?ents = "[entry ''Pro'', other ''Projects'', other ''ProjectsRe'', other ''Projectsr'',
                entry ''projects'']"
  let ?a = "\<lparr>cName = ''Pro'', plen = 3, cScore = 3\<rparr>"
  let ?b = "\<lparr>cName = ''Projects'', plen = 8, cScore = 8\<rparr>"
  let ?c = "\<lparr>cName = ''projects'', plen = 8, cScore = 7\<rparr>"
  have t1: "TrimLeft ''/Projectsrepo'' [backslash, CHR ''/''] = ''Projectsrepo''" by code_simp
  have t2: "''Projectsrepo'' \<noteq> []" by simp
  have l: "ReadDir linkSys ''/mnt/c'' = Some ?ents" by code_simp
  have s1: "Stat linkSys ''/mnt/c/Projects'' = Some True" by code_simp
  have s2: "Stat linkSys ''/mnt/c/ProjectsRe'' = Some False" by code_simp
  have s3: "Stat linkSys ''/mnt/c/Projectsr'' = None" by code_simp
  have flt: "map (\<lambda>e. \<lparr>cName = Name e, plen = length (Name e),
                        cScore = caseScore (take (length (Name e)) ''Projectsrepo'') (Name e)\<rparr>)
               (filter (\<lambda>e. length (Name e) \<le> length ''Projectsrepo''
                           \<and> EqualFold linkSys (take (length (Name e)) ''Projectsrepo'') (Name e)
                           \<and> (IsDir e \<or> Stat linkSys (Join ''/mnt/c'' (Name e)) = Some True)) ?ents)
             = [?a, ?b, ?c]"
    by code_simp
  note inst = collapsedPass_chooses_longest_prefix [OF t1 t2 l]
  from inst have ms: "collapsedMatches linkSys ''/mnt/c'' ''Projectsrepo'' ?ents = [?a, ?b, ?c]"
    unfolding flt by blast
  from inst obtain m where m: "m \<in> set [?a, ?b, ?c]"
    and first: "\<forall>m' \<in> set [?a, ?b, ?c].
                  plen m' < plen m \<or>
                  (plen m' = plen m \<and>
                    (cScore m' < cScore m \<or> (cScore m' = cScore m \<and> cName m \<le> cName m')))"
    and pass: "collapsedPass linkSys ''/mnt/c'' ''Projectsrepo''
                 = Again (Join ''/mnt/c'' (cName m)) (drop (plen m) ''Projectsrepo'')"
    and loop: "collapsedLoop linkSys ''/mnt/c'' ''/Projectsrepo''
                 = collapsedLoop linkSys (Join ''/mnt/c'' (cName m)) (drop (plen m) ''Projectsrepo'')"
    unfolding ms by blast
  have "m = ?b"
  proof (rule ccontr)
    assume "m \<noteq> ?b"
    with m have "m = ?a \<or> m = ?c" by auto
    with first show False by auto
  qed
  moreover have j: "Join ''/mnt/c'' ''Projects'' = ''/mnt/c/Projects''" by code_simp
  moreover have "collapsedLoop linkSys ''/mnt/c/Projects'' ''repo'' = Some (Inr ''/mnt/c/Projects/repo'')"
    by code_simp
  ultimately have "collapsedPass linkSys ''/mnt/c'' ''Projectsrepo'' = Again ''/mnt/c/Projects'' ''repo''"
    and "collapsedLoop linkSys ''/mnt/c'' ''/Projectsrepo'' = Some (Inr ''/mnt/c/Projects/repo'')"
    using pass loop by simp_all
  with t1 l s1 s2 s3 ms show ?thesis by simp
qed

text \<open>
  C8. Let the loop of the Greedy Matcher stand, after any number of passes, at a directory
  whose listing is read and a tail that is not empty and does not start with a separator. If
  no entry satisfies the prefix condition against the tail, that pass returns the
  \<open>cannot segment\<close> error with the tail, its head cut to 16 bytes and \<open>...\<close> for display,
  and the directory searched, and this error is the result of the whole resolution: no
  earlier choice is tried again.
\<close>

theorem collapsed_no_match_is_terminal:
  assumes "2 \<le> length win"
      and "pickCaseInsensitiveEntry env ''/mnt'' (encodeRune (ToLower env (byte (win ! 0)))) = Inr mntRoot"
      and "passes env n (Join ''/mnt'' mntRoot) (TrimLeft (drop 2 win) [backslash, CHR ''/'']) = Again cur tail"
      and "tail \<noteq> []" and "hd tail \<noteq> CHR ''/''" and "hd tail \<noteq> backslash"
      and "ReadDir env cur = Some ents"
      and "\<forall>e \<in> set ents. \<not> (length (Name e) \<le> length tail
                                \<and> EqualFold env (take (length (Name e)) tail) (Name e))"
  shows "collapsedPass env cur tail = Return (Inl (CannotSegment tail (argHead tail) cur))
         \<and> resolveWindowsPathCollapsed env win = Some (Inl (CannotSegment tail (argHead tail) cur))
         \<and> argHead tail = (if 16 < length tail then take 16 tail @ ''...'' else tail)"
proof -
  have "filter (\<lambda>e. length (Name e) \<le> length tail
                  \<and> EqualFold env (take (length (Name e)) tail) (Name e)
                  \<and> (IsDir e \<or> Stat env (Join cur (Name e)) = Some True)) ents = []"
    using assms(8) by (auto simp: filter_empty_conv)
  then have none: "collapsedMatches env cur tail ents = []"
    by (simp add: collapsedMatches_filter)
  have pass: "collapsedPass env cur tail = Return (Inl (CannotSegment tail (argHead tail) cur))"
    using assms(4-7) none by (rule collapsedPass_no_match)
  have here: "collapsedLoop env cur tail = Some (Inl (CannotSegment tail (argHead tail) cur))"
    using pass by (subst collapsedLoop.simps) simp
  have "collapsedLoop env (Join ''/mnt'' mntRoot) (TrimLeft (drop 2 win) [backslash, CHR ''/''])
          = collapsedLoop env cur tail"
    using assms(3) by (rule passes_loop)
  with here assms(1,2)
  have whole: "resolveWindowsPathCollapsed env win = Some (Inl (CannotSegment tail (argHead tail) cur))"
    by (simp add: resolveWindowsPathCollapsed_def Let_def)
  have "argHead tail = (if 16 < length tail then take 16 tail @ ''...'' else tail)"
    using assms(4) by (simp add: argHead_def)
  with pass whole show ?thesis by simp
qed

theorem collapsed_no_match_is_terminal_witness:
  "passes projectsSys 1 ''/mnt/c'' ''ProjectsXrepo'' = Again ''/mnt/c/ProjectsX'' ''repo''
   \<and> resolveWindowsPathCollapsed projectsSys ''C:ProjectsXrepo''
       = Some (Inl (CannotSegment ''repo'' ''repo'' ''/mnt/c/ProjectsX''))
   \<and> resolveWindowsPath projectsSys ''C:/Projects/Xrepo'' = Inr ''/mnt/c/Projects/Xrepo''"
proof -
  have len: "2 \<le> length ''C:ProjectsXrepo''" by simp
  have mnt: "pickCaseInsensitiveEntry projectsSys ''/mnt''
               (encodeRune (ToLower projectsSys (byte (''C:ProjectsXrepo'' ! 0)))) = Inr ''c''"
    by code_simp
  have p: "passes projectsSys 1 ''/mnt/c'' ''ProjectsXrepo'' = Again ''/mnt/c/ProjectsX'' ''repo''"
    by code_simp
  have p': "passes projectsSys 1 (Join ''/mnt'' ''c'')
              (TrimLeft (drop 2 ''C:ProjectsXrepo'') [backslash, CHR ''/''])
              = Again ''/mnt/c/ProjectsX'' ''repo''"
    by code_simp
  have t1: "''repo'' \<noteq> []" and t2: "hd ''repo'' \<noteq> CHR ''/''" and t3: "hd ''repo'' \<noteq> backslash"
    by (simp_all add: backslash_def)
  have l: "ReadDir projectsSys ''/mnt/c/ProjectsX'' = Some [entry ''other'']" by code_simp
  have no: "\<forall>e \<in> set [entry ''other'']. \<not> (length (Name e) \<le> length ''repo''
                \<and> EqualFold projectsSys (take (length (Name e)) ''repo'') (Name e))"
    by (simp add: entry_def)
  from collapsed_no_match_is_terminal [OF len mnt p' t1 t2 t3 l no]
  have "resolveWindowsPathCollapsed projectsSys ''C:ProjectsXrepo''
          = Some (Inl (CannotSegment ''repo'' (argHead ''repo'') ''/mnt/c/ProjectsX''))"
    and "argHead ''repo'' = ''repo''"
    by simp_all
  moreover have "resolveWindowsPath projectsSys ''C:/Projects/Xrepo'' = Inr ''/mnt/c/Projects/Xrepo''"
    by code_simp
  ultimately show ?thesis using p by simp
qed

text \<open>
  The loop returns on every system whose listings hold no entry with the empty name, as the
  listings of \<open>os.ReadDir\<close> do: each pass that goes round again shortens the tail.
\<close>

lemma collapsedPass_shortens:
  assumes names: "\<And>d ents e. ReadDir env d = Some ents \<Longrightarrow> e \<in> set ents \<Longrightarrow> Name e \<noteq> []"
      and again: "collapsedPass env cur tail = Again cur' tail'"
  shows "length tail' < length tail"
proof -
  from again have ne: "tail \<noteq> []"
    by (auto simp: collapsedPass_def)
  show ?thesis
  proof (cases "hd tail = CHR ''/'' \<or> hd tail = backslash")
    case True
    with again ne have t: "tail' = TrimLeft tail [backslash, CHR ''/'']"
      by (simp add: collapsedPass_def)
    obtain x xs where xs: "tail = x # xs" using ne by (cases tail) auto
    with True have "TrimLeft tail [backslash, CHR ''/''] = dropWhile (\<lambda>c. c \<in> set [backslash, CHR ''/'']) xs"
      by (auto simp: TrimLeft_def)
    then have "length tail' \<le> length xs"
      unfolding t by (simp add: length_dropWhile_le)
    with xs show ?thesis by simp
  next
    case False
    with again ne obtain ents where ents: "ReadDir env cur = Some ents"
      by (auto simp: collapsedPass_def split: option.splits)
    let ?ms = "collapsedMatches env cur tail ents"
    from again ne False ents have ms: "?ms \<noteq> []"
      by (auto simp: collapsedPass_def Let_def split: if_splits)
    let ?m = "hd (SliceStable candLess ?ms)"
    from again ne False ents ms have t: "tail' = drop (plen ?m) tail"
      by (simp add: collapsedPass_def Let_def)
    have "?m \<in> set ?ms" using candLess_first [OF ms] by simp
    then obtain e where "e \<in> set ents" "plen ?m = length (Name e)"
      unfolding collapsedMatches_filter [of env cur tail ents] by auto
    with names [OF ents] have "0 < plen ?m" by auto
    with ne show ?thesis unfolding t by simp
  qed
qed

lemma collapsedLoop_returns:
  assumes names: "\<And>d ents e. ReadDir env d = Some ents \<Longrightarrow> e \<in> set ents \<Longrightarrow> Name e \<noteq> []"
  shows "\<exists>r. collapsedLoop env cur tail = Some r"
proof (induction "length tail" arbitrary: cur tail rule: less_induct)
  case less
  show ?case
  proof (cases "collapsedPass env cur tail")
    case (Return r)
    then show ?thesis by (subst collapsedLoop.simps) simp
  next
    case (Again cur' tail')
    with names have "length tail' < length tail" by (rule collapsedPass_shortens)
    then obtain r where "collapsedLoop env cur' tail' = Some r"
      using less by blast
    with Again show ?thesis by (subst collapsedLoop.simps) simp
  qed
qed

subsection \<open>Segmented Candidate Explorer\<close>

declare dfs.simps [simp del]

lemma dfsMatches_filter:
  "dfsMatches env d seg ents
     = map (\<lambda>e. \<lparr>mName = Name e, mScore = caseScore seg (Name e), path = Join d (Name e)\<rparr>)
         (filter (\<lambda>e. EqualFold env (Name e) seg
                     \<and> (IsDir e \<or> Stat env (Join d (Name e)) = Some True)) ents)"
  unfolding isDirFollowSymlink_True [symmetric]
  by (induction ents) (auto simp: Let_def split: sum.splits)

lemma reached_Nil [simp]: "reached env d [] names \<longleftrightarrow> names = []"
  by (cases names) simp_all

lemma chainScore_Nil [simp]: "chainScore [] names = 0"
  by (simp add: chainScore_def)

lemma chainScore_Cons [simp]:
  "chainScore (seg # segs) (n # names) = caseScore seg n + chainScore segs names"
  by (simp add: chainScore_def)

lemma dfs_leaf:
  "length segs \<le> idx st \<Longrightarrow>
     dfs env segs st = (if Stat env (dir st) = Some True
                        then [\<lparr>fullPath = dir st, score = stScore st\<rparr>] else [])"
  by (subst dfs.simps) (simp split: option.splits)

lemma dfs_unreadable:
  "idx st < length segs \<Longrightarrow> ReadDir env (dir st) = None \<Longrightarrow> dfs env segs st = []"
  by (subst dfs.simps) simp

lemma dfs_branches:
  "idx st < length segs \<Longrightarrow> ReadDir env (dir st) = Some ents \<Longrightarrow>
     dfs env segs st
       = concat (map (\<lambda>m. dfs env segs \<lparr>dir = path m, idx = idx st + 1,
                                         stScore = stScore st + mScore m\<rparr>)
                  (dfsMatches env (dir st) (segs ! idx st) ents))"
  by (subst dfs.simps) (simp add: Let_def)

lemma dfs_iff:
  "c \<in> set (dfs env segs st) \<longleftrightarrow>
     (\<exists>names. reached env (dir st) (drop (idx st) segs) names
        \<and> Stat env (foldl Join (dir st) names) = Some True
        \<and> c = \<lparr>fullPath = foldl Join (dir st) names,
                score = stScore st + chainScore (drop (idx st) segs) names\<rparr>)"
proof (induction env segs st arbitrary: c rule: dfs.induct)
  case (1 env segs st)
  show ?case
  proof (cases "length segs \<le> idx st")
    case True
    then show ?thesis by (auto simp: dfs_leaf)
  next
    case False
    then have lt: "idx st < length segs" by simp
    then have dr: "drop (idx st) segs = segs ! idx st # drop (Suc (idx st)) segs"
      by (simp add: Cons_nth_drop_Suc)
    show ?thesis
    proof (cases "ReadDir env (dir st)")
      case None
      have "\<not> reached env (dir st) (drop (idx st) segs) names" for names
        unfolding dr using None by (cases names) simp_all
      then show ?thesis using None lt by (simp add: dfs_unreadable)
    next
      case (Some ents)
      let ?seg = "segs ! idx st"
      let ?ms = "dfsMatches env (dir st) ?seg ents"
      let ?child = "\<lambda>m. \<lparr>dir = path m, idx = idx st + 1, stScore = stScore st + mScore m\<rparr>"
      have IH: "c \<in> set (dfs env segs (?child m)) \<longleftrightarrow>
          (\<exists>names. reached env (path m) (drop (Suc (idx st)) segs) names
             \<and> Stat env (foldl Join (path m) names) = Some True
             \<and> c = \<lparr>fullPath = foldl Join (path m) names,
                     score = stScore st + mScore m + chainScore (drop (Suc (idx st)) segs) names\<rparr>)"
        if "m \<in> set ?ms" for m c
        using "1.IH" [OF False refl Some refl that, of c] by simp
      have "c \<in> set (dfs env segs st) \<longleftrightarrow> (\<exists>m \<in> set ?ms. c \<in> set (dfs env segs (?child m)))"
        using lt Some by (simp add: dfs_branches)
      also have "\<dots> \<longleftrightarrow> (\<exists>m \<in> set ?ms. \<exists>names. reached env (path m) (drop (Suc (idx st)) segs) names
             \<and> Stat env (foldl Join (path m) names) = Some True
             \<and> c = \<lparr>fullPath = foldl Join (path m) names,
                     score = stScore st + mScore m + chainScore (drop (Suc (idx st)) segs) names\<rparr>)"
        using IH by blast
      also have "\<dots> \<longleftrightarrow> (\<exists>names. reached env (dir st) (drop (idx st) segs) names
            \<and> Stat env (foldl Join (dir st) names) = Some True
            \<and> c = \<lparr>fullPath = foldl Join (dir st) names,
                    score = stScore st + chainScore (drop (idx st) segs) names\<rparr>)"
        (is "?L \<longleftrightarrow> ?R")
      proof
        assume ?L
        then obtain m names where m: "m \<in> set ?ms"
          and r: "reached env (path m) (drop (Suc (idx st)) segs) names"
          and s: "Stat env (foldl Join (path m) names) = Some True"
          and c: "c = \<lparr>fullPath = foldl Join (path m) names,
                     score = stScore st + mScore m + chainScore (drop (Suc (idx st)) segs) names\<rparr>"
          by blast
        from m obtain e where e: "e \<in> set ents" "EqualFold env (Name e) ?seg"
            "(IsDir e \<or> Stat env (Join (dir st) (Name e)) = Some True)"
            and me: "m = \<lparr>mName = Name e, mScore = caseScore ?seg (Name e), path = Join (dir st) (Name e)\<rparr>"
          unfolding dfsMatches_filter by auto
        have "reached env (dir st) (drop (idx st) segs) (Name e # names)"
          unfolding dr using Some e r me by auto
        moreover have "Stat env (foldl Join (dir st) (Name e # names)) = Some True"
          using s me by simp
        moreover have "c = \<lparr>fullPath = foldl Join (dir st) (Name e # names),
                    score = stScore st + chainScore (drop (idx st) segs) (Name e # names)\<rparr>"
          unfolding dr using c me by simp
        ultimately show ?R by blast
      next
        assume ?R
        then obtain names where r: "reached env (dir st) (drop (idx st) segs) names"
          and s: "Stat env (foldl Join (dir st) names) = Some True"
          and c: "c = \<lparr>fullPath = foldl Join (dir st) names,
                    score = stScore st + chainScore (drop (idx st) segs) names\<rparr>"
          by blast
        from r obtain n names' where names: "names = n # names'"
          unfolding dr by (cases names) simp_all
        from r obtain e where e: "e \<in> set ents" "Name e = n" "EqualFold env n ?seg"
            "(IsDir e \<or> Stat env (Join (dir st) n) = Some True)"
            and r': "reached env (Join (dir st) n) (drop (Suc (idx st)) segs) names'"
          unfolding dr names using Some by auto
        let ?m = "\<lparr>mName = n, mScore = caseScore ?seg n, path = Join (dir st) n\<rparr>"
        have "?m \<in> set ?ms"
          unfolding dfsMatches_filter using e by force
        moreover have "reached env (path ?m) (drop (Suc (idx st)) segs) names'"
          using r' by simp
        moreover have "Stat env (foldl Join (path ?m) names') = Some True"
          using s names by simp
        moreover have "c = \<lparr>fullPath = foldl Join (path ?m) names',
               score = stScore st + mScore ?m + chainScore (drop (Suc (idx st)) segs) names'\<rparr>"
          using c unfolding dr names by simp
        ultimately show ?L by blast
      qed
      finally show ?thesis .
    qed
  qed
qed

lemma exploreCandidates_iff:
  "exploreCandidates env root segs = Inr cands \<Longrightarrow>
   c \<in> set cands \<longleftrightarrow>
     (\<exists>names. reached env root segs names
        \<and> Stat env (foldl Join root names) = Some True
        \<and> c = \<lparr>fullPath = foldl Join root names, score = chainScore segs names\<rparr>)"
proof (cases "segs = []")
  case True
  assume "exploreCandidates env root segs = Inr cands"
  with True show ?thesis by (auto simp: exploreCandidates_def split: if_splits)
next
  case False
  assume "exploreCandidates env root segs = Inr cands"
  with False have "cands = dfs env segs \<lparr>dir = root, idx = 0, stScore = 0\<rparr>"
    by (simp add: exploreCandidates_def)
  then show ?thesis using dfs_iff [of c env segs "\<lparr>dir = root, idx = 0, stScore = 0\<rparr>"] by simp
qed


lemma resolveWindowsPath_head:
  assumes "2 \<le> length win"
      and "pickCaseInsensitiveEntry env ''/mnt'' (encodeRune (ToLower env (byte (win ! 0)))) = Inr mntRoot"
      and "exploreCandidates env (Join ''/mnt'' mntRoot) (segments win) = Inr cands"
      and "cands \<noteq> []"
  shows "resolveWindowsPath env win = Inr (fullPath (hd (SliceStable candidateLess cands)))"
  using assms by (simp add: resolveWindowsPath_def Let_def)

text \<open>
  C5. In a resolution whose mount root is found and whose segment list is not empty, the
  Explorer returns its candidates and no error. A call of the search, at any depth, whose
  directory cannot be listed emits no candidate. Every chain of entries that matches all
  segments through directories that can be listed, and ends in a directory, still yields
  its candidate, whatever failed elsewhere, and the resolution succeeds with the path of a
  candidate.
\<close>

theorem explorer_prunes_unreadable_branch:
  assumes len: "2 \<le> length win"
      and mnt: "pickCaseInsensitiveEntry env ''/mnt'' (encodeRune (ToLower env (byte (win ! 0)))) = Inr mntRoot"
      and segs: "segments win \<noteq> []"
  shows "exploreCandidates env (Join ''/mnt'' mntRoot) (segments win)
           = Inr (dfs env (segments win) \<lparr>dir = Join ''/mnt'' mntRoot, idx = 0, stScore = 0\<rparr>)
         \<and> (\<forall>st. idx st < length (segments win) \<and> ReadDir env (dir st) = None
                  \<longrightarrow> dfs env (segments win) st = [])
         \<and> (\<forall>names. reached env (Join ''/mnt'' mntRoot) (segments win) names
                  \<and> Stat env (foldl Join (Join ''/mnt'' mntRoot) names) = Some True
                \<longrightarrow> \<lparr>fullPath = foldl Join (Join ''/mnt'' mntRoot) names,
                      score = chainScore (segments win) names\<rparr>
                       \<in> set (dfs env (segments win) \<lparr>dir = Join ''/mnt'' mntRoot, idx = 0, stScore = 0\<rparr>)
                    \<and> (\<exists>c \<in> set (dfs env (segments win)
                                     \<lparr>dir = Join ''/mnt'' mntRoot, idx = 0, stScore = 0\<rparr>).
                          resolveWindowsPath env win = Inr (fullPath c)))"
proof (intro conjI allI impI)
  let ?root = "Join ''/mnt'' mntRoot"
  let ?cands = "dfs env (segments win) \<lparr>dir = ?root, idx = 0, stScore = 0\<rparr>"
  show ex: "exploreCandidates env ?root (segments win) = Inr ?cands"
    using segs by (simp add: exploreCandidates_def)
  show "dfs env (segments win) st = []"
    if "idx st < length (segments win) \<and> ReadDir env (dir st) = None" for st
    using that by (simp add: dfs_unreadable)
  fix names
  assume chain: "reached env ?root (segments win) names
                   \<and> Stat env (foldl Join ?root names) = Some True"
  then show mem: "\<lparr>fullPath = foldl Join ?root names, score = chainScore (segments win) names\<rparr>
                    \<in> set ?cands"
    using exploreCandidates_iff [OF ex] by blast
  then have ne: "?cands \<noteq> []" by auto
  have "resolveWindowsPath env win = Inr (fullPath (hd (SliceStable candidateLess ?cands)))"
    using len mnt ex ne by (rule resolveWindowsPath_head)
  moreover have "hd (SliceStable candidateLess ?cands) \<in> set ?cands"
    using candidateLess_first [OF ne] by simp
  ultimately show "\<exists>c \<in> set ?cands. resolveWindowsPath env win = Inr (fullPath c)"
    by blast
qed

theorem explorer_prunes_unreadable_branch_witness:
  "ReadDir pruneSys ''/mnt/c/Foo'' = None
   \<and> dfs pruneSys [''FOO'', ''bar''] \<lparr>dir = ''/mnt/c/Foo'', idx = 1, stScore = 1\<rparr> = []
   \<and> dfs pruneSys [''FOO'', ''bar''] \<lparr>dir = ''/mnt/c'', idx = 0, stScore = 0\<rparr>
       = [\<lparr>fullPath = ''/mnt/c/foo/bar'', score = 3\<rparr>]
   \<and> resolveWindowsPath pruneSys ''C:/FOO/bar'' = Inr ''/mnt/c/foo/bar''"
proof -
  have len: "2 \<le> length ''C:/FOO/bar''" by simp
  have mnt: "pickCaseInsensitiveEntry pruneSys ''/mnt''
               (encodeRune (ToLower pruneSys (byte (''C:/FOO/bar'' ! 0)))) = Inr ''c''"
    by code_simp
  have root: "Join ''/mnt'' ''c'' = ''/mnt/c''" by code_simp
  have segs: "segments ''C:/FOO/bar'' = [''FOO'', ''bar'']" by code_simp
  have ne: "segments ''C:/FOO/bar'' \<noteq> []" by (simp add: segs)
  have unreadable: "ReadDir pruneSys ''/mnt/c/Foo'' = None" by code_simp
  have all: "dfs pruneSys [''FOO'', ''bar''] \<lparr>dir = ''/mnt/c'', idx = 0, stScore = 0\<rparr>
               = [\<lparr>fullPath = ''/mnt/c/foo/bar'', score = 3\<rparr>]"
    by code_simp
  note inst = explorer_prunes_unreadable_branch [OF len mnt ne, unfolded root segs]
  from inst have prune: "\<forall>st. idx st < length [''FOO'', ''bar''] \<and> ReadDir pruneSys (dir st) = None
                          \<longrightarrow> dfs pruneSys [''FOO'', ''bar''] st = []"
    by blast
  have pruned: "dfs pruneSys [''FOO'', ''bar''] \<lparr>dir = ''/mnt/c/Foo'', idx = 1, stScore = 1\<rparr> = []"
    using prune unreadable by simp
  have r: "reached pruneSys ''/mnt/c'' [''FOO'', ''bar''] [''foo'', ''bar'']" by code_simp
  have p: "foldl Join ''/mnt/c'' [''foo'', ''bar''] = ''/mnt/c/foo/bar''" by code_simp
  have s: "Stat pruneSys (foldl Join ''/mnt/c'' [''foo'', ''bar'']) = Some True"
    unfolding p by code_simp
  from inst r s
  have "\<exists>c \<in> set (dfs pruneSys [''FOO'', ''bar''] \<lparr>dir = ''/mnt/c'', idx = 0, stScore = 0\<rparr>).
          resolveWindowsPath pruneSys ''C:/FOO/bar'' = Inr (fullPath c)"
    by blast
  then have "resolveWindowsPath pruneSys ''C:/FOO/bar'' = Inr ''/mnt/c/foo/bar''"
    unfolding all by simp
  with unreadable pruned all show ?thesis by simp
qed

text \<open>
  C6. Every candidate of the Explorer has a full path of which \<open>os.Stat\<close> says that it
  exists and is a directory, and that path is reached from the root through one entry for
  each segment, each listed in the directory before it and resolved to a directory,
  following links: the entry is a directory itself, or \<open>os.Stat\<close> of its path succeeds and
  says directory. Its score is the sum of the scores along that chain.
\<close>

theorem every_candidate_is_a_verified_directory:
  assumes "exploreCandidates env root segs = Inr cands" and "c \<in> set cands"
  shows "Stat env (fullPath c) = Some True
         \<and> (\<exists>names. reached env root segs names \<and> fullPath c = foldl Join root names
                     \<and> score c = chainScore segs names)"
proof -
  from exploreCandidates_iff [OF assms(1), of c] assms(2)
  obtain names where "reached env root segs names"
    and "Stat env (foldl Join root names) = Some True"
    and "c = \<lparr>fullPath = foldl Join root names, score = chainScore segs names\<rparr>"
    by blast
  then show ?thesis by auto
qed

theorem every_candidate_is_a_verified_directory_witness:
  "ReadDir linkSys ''/mnt/c''
     = Some [entry ''Pro'', other ''Projects'', other ''ProjectsRe'', other ''Projectsr'',
             entry ''projects'']
   \<and> Stat linkSys ''/mnt/c/Projects'' = Some True
   \<and> exploreCandidates linkSys ''/mnt/c'' [''projects'', ''repo'']
       = Inr [\<lparr>fullPath = ''/mnt/c/Projects/repo'', score = 11\<rparr>]
   \<and> Stat linkSys ''/mnt/c/Projects/repo'' = Some True
   \<and> (\<exists>names. reached linkSys ''/mnt/c'' [''projects'', ''repo''] names
                \<and> ''/mnt/c/Projects/repo'' = foldl Join ''/mnt/c'' names
                \<and> 11 = chainScore [''projects'', ''repo''] names)"
proof -
  let ?a = "\<lparr>fullPath = ''/mnt/c/Projects/repo'', score = 11\<rparr>"
  have l: "ReadDir linkSys ''/mnt/c''
             = Some [entry ''Pro'', other ''Projects'', other ''ProjectsRe'', other ''Projectsr'',
                     entry ''projects'']"
    by code_simp
  have lnk: "Stat linkSys ''/mnt/c/Projects'' = Some True" by code_simp
  have ex: "exploreCandidates linkSys ''/mnt/c'' [''projects'', ''repo''] = Inr [?a]" by code_simp
  have mem: "?a \<in> set [?a]" by simp
  from every_candidate_is_a_verified_directory [OF ex mem] l lnk ex
  show ?thesis by simp
qed

subsection \<open>Classification and ResolveTarget\<close>

lemma short_not_classified:
  "length p < 3 \<Longrightarrow> \<not> isWindowsPath env p \<and> \<not> looksLikeWindowsDriveNoSlash env p"
  by (simp add: isWindowsPath_def looksLikeWindowsDriveNoSlash_def)

text \<open>
  C10, amended. For every argument whose form trimmed of white space has fewer than three
  bytes, as \<open>C:\<close> has, both classifiers say no. If the trimmed form is empty,
  \<open>ResolveTarget\<close> refuses it with the missing-target error. If not, it resolves it as a
  Linux path: \<open>~\<close> is the home directory and a form that starts with \<open>~/\<close> is taken from
  there (without a home directory both fail), a form that starts with \<open>/\<close> is absolute,
  and any other is taken from the working directory; the cleaned path is returned if
  \<open>os.Stat\<close> says that it is a directory. No directory is listed on the way, so the mount
  parent is never consulted: the result is the same whatever listings the system holds.
\<close>

theorem short_input_takes_linux_semantics:
  assumes "length (TrimSpace arg) < 3"
  shows "\<not> isWindowsPath env (TrimSpace arg)
         \<and> \<not> looksLikeWindowsDriveNoSlash env (TrimSpace arg)
         \<and> (TrimSpace arg = [] \<longrightarrow> ResolveTarget env arg cwd home = Some (Inl MissingTarget))
         \<and> (TrimSpace arg \<noteq> [] \<longrightarrow>
              (let t = TrimSpace arg;
                   p = (if t = ''~'' then Clean home
                        else if take 2 t = ''~/'' then Clean (Join home (drop 2 t))
                        else if take 1 t = ''/'' then Clean t
                        else Clean (Join cwd t))
               in ResolveTarget env arg cwd home
                    = (if (t = ''~'' \<or> take 2 t = ''~/'') \<and> home = [] then Some (Inl HomeNotSet)
                       else Some (case Stat env p of
                                    None \<Rightarrow> Inl (StatErr p)
                                  | Some isDir \<Rightarrow> if isDir then Inr p else Inl (NotADirectory p)))))
         \<and> ResolveTarget (env\<lparr>ReadDir := rd\<rparr>) arg cwd home = ResolveTarget env arg cwd home"
proof -
  let ?t = "TrimSpace arg"
  let ?p = "if ?t = ''~'' then Clean home
            else if take 2 ?t = ''~/'' then Clean (Join home (drop 2 ?t))
            else if take 1 ?t = ''/'' then Clean ?t
            else Clean (Join cwd ?t)"
  let ?r = "\<lambda>e. if (?t = ''~'' \<or> take 2 ?t = ''~/'') \<and> home = [] then Some (Inl HomeNotSet)
                else Some (case Stat e ?p of
                             None \<Rightarrow> Inl (StatErr ?p)
                           | Some isDir \<Rightarrow> if isDir then Inr ?p else Inl (NotADirectory ?p))"
  have cls: "\<not> isWindowsPath e ?t \<and> \<not> looksLikeWindowsDriveNoSlash e ?t" for e
    using assms by (rule short_not_classified)
  have empty: "ResolveTarget e arg cwd home = Some (Inl MissingTarget)" if "?t = []" for e
    using that by (simp add: ResolveTarget_def)
  have lin: "resolveLinuxLike ?t cwd home
               = (if (?t = ''~'' \<or> take 2 ?t = ''~/'') \<and> home = [] then Inl HomeNotSet else Inr ?p)"
    by (simp add: resolveLinuxLike_def HasPrefix_def numeral_2_eq_2)
  have res: "ResolveTarget e arg cwd home = ?r e" if "?t \<noteq> []" for e
    using that cls [of e] unfolding ResolveTarget_def Let_def lin
    by (auto simp: statDir_def split: option.splits)
  have same: "ResolveTarget (env\<lparr>ReadDir := rd\<rparr>) arg cwd home = ResolveTarget env arg cwd home"
  proof (cases "?t = []")
    case True
    then show ?thesis by (simp add: empty)
  next
    case False
    then show ?thesis by (simp add: res)
  qed
  from cls [of env] empty [of env] res [of env] same show ?thesis
    unfolding Let_def by blast
qed

theorem short_input_takes_linux_semantics_witness:
  "ResolveTarget homeSys '' C: '' ''/home/me'' ''/root'' = Some (Inr ''/home/me/C:'')
   \<and> ResolveTarget homeSys ''/'' ''/home/me'' ''/root'' = Some (Inr ''/'')
   \<and> ResolveTarget homeSys ''~'' ''/mnt'' ''/home/me'' = Some (Inr ''/home/me'')
   \<and> ResolveTarget homeSys ''~/'' ''/mnt'' ''/home/me'' = Some (Inr ''/home/me'')
   \<and> ResolveTarget homeSys ''~'' ''/mnt'' [] = Some (Inl HomeNotSet)
   \<and> ResolveTarget homeSys ''..'' ''/home/me'' ''/root'' = Some (Inl (StatErr ''/home''))
   \<and> ResolveTarget homeSys ''  '' ''/home/me'' ''/root'' = Some (Inl MissingTarget)"
proof -
  have t1: "TrimSpace '' C: '' = ''C:''" and t2: "TrimSpace ''/'' = ''/''"
    and t3: "TrimSpace ''~'' = ''~''" and t4: "TrimSpace ''~/'' = ''~/''"
    and t5: "TrimSpace ''..'' = ''..''" and t6: "TrimSpace ''  '' = []"
    by code_simp+
  have p1: "Clean (Join ''/home/me'' ''C:'') = ''/home/me/C:''" and p2: "Clean ''/'' = ''/''"
    and p3: "Clean ''/home/me'' = ''/home/me''"
    and p4: "Clean (Join ''/home/me'' []) = ''/home/me''"
    and p5: "Clean (Join ''/home/me'' ''..'') = ''/home''"
    by code_simp+
  have s1: "Stat homeSys ''/home/me/C:'' = Some True" and s2: "Stat homeSys ''/'' = Some True"
    and s3: "Stat homeSys ''/home/me'' = Some True" and s5: "Stat homeSys ''/home'' = None"
    by code_simp+
  have r1: "ResolveTarget homeSys '' C: '' ''/home/me'' ''/root'' = Some (Inr ''/home/me/C:'')"
    using short_input_takes_linux_semantics [of "'' C: ''" homeSys "''/home/me''" "''/root''"]
    unfolding t1 by (simp add: Let_def p1 s1)
  have r2: "ResolveTarget homeSys ''/'' ''/home/me'' ''/root'' = Some (Inr ''/'')"
    using short_input_takes_linux_semantics [of "''/''" homeSys "''/home/me''" "''/root''"]
    unfolding t2 by (simp add: Let_def p2 s2)
  have r3: "ResolveTarget homeSys ''~'' ''/mnt'' ''/home/me'' = Some (Inr ''/home/me'')"
    using short_input_takes_linux_semantics [of "''~''" homeSys "''/mnt''" "''/home/me''"]
    unfolding t3 by (simp add: Let_def p3 s3)
  have r4: "ResolveTarget homeSys ''~/'' ''/mnt'' ''/home/me'' = Some (Inr ''/home/me'')"
    using short_input_takes_linux_semantics [of "''~/''" homeSys "''/mnt''" "''/home/me''"]
    unfolding t4 by (simp add: Let_def p4 s3)
  have r5: "ResolveTarget homeSys ''~'' ''/mnt'' [] = Some (Inl HomeNotSet)"
    using short_input_takes_linux_semantics [of "''~''" homeSys "''/mnt''" "[]"]
    unfolding t3 by (simp add: Let_def)
  have r6: "ResolveTarget homeSys ''..'' ''/home/me'' ''/root'' = Some (Inl (StatErr ''/home''))"
    using short_input_takes_linux_semantics [of "''..''" homeSys "''/home/me''" "''/root''"]
    unfolding t5 by (simp add: Let_def p5 s5)
  have r7: "ResolveTarget homeSys ''  '' ''/home/me'' ''/root'' = Some (Inl MissingTarget)"
    using short_input_takes_linux_semantics [of "''  ''" homeSys "''/home/me''" "''/root''"]
    unfolding t6 by simp
  from r1 r2 r3 r4 r5 r6 r7 show ?thesis by simp
qed

text \<open>
  C10, as stated, covers every argument whose trimmed form has fewer than three bytes, so
  the empty one too. That one is refused before any classification, with the missing-target
  error, where the Linux path semantics would give the working directory.
\<close>

theorem empty_input_is_refused:
  "length (TrimSpace []) < 3
   \<and> ResolveTarget homeSys [] ''/home/me'' ''/root'' = Some (Inl MissingTarget)
   \<and> (case resolveLinuxLike (TrimSpace []) ''/home/me'' ''/root'' of
         Inl err \<Rightarrow> Inl err
       | Inr p \<Rightarrow> statDir homeSys p) = Inr ''/home/me''"
  by code_simp

subsection \<open>Paths built by Join\<close>

lemma Split_nonempty [simp]: "Split s sep \<noteq> []"
  by (induction s) (auto split: list.splits)

lemma Split_no_sep: "sep \<notin> set w \<Longrightarrow> Split w sep = [w]"
  by (induction w) (auto split: list.splits)

lemma Split_append_sep:
  "sep \<notin> set w \<Longrightarrow> Split (w @ sep # rest) sep = w # Split rest sep"
  by (induction w) (auto split: list.splits)

lemma set_Split: "w \<in> set (Split s sep) \<Longrightarrow> sep \<notin> set w"
proof (induction s arbitrary: w)
  case Nil
  then show ?case by simp
next
  case (Cons c s)
  show ?case
  proof (cases "c = sep")
    case True
    with Cons show ?thesis by auto
  next
    case False
    obtain v vs where sp: "Split s sep = v # vs"
      using Split_nonempty [of s sep] by (cases "Split s sep") auto
    with False Cons.prems have "w = c # v \<or> w \<in> set vs" by simp
    moreover have "sep \<notin> set v" using Cons.IH [of v] sp by simp
    moreover have "w \<in> set vs \<Longrightarrow> sep \<notin> set w" using Cons.IH [of w] sp by simp
    ultimately show ?thesis using False by auto
  qed
qed

lemma Split_joinSlash:
  "cs \<noteq> [] \<Longrightarrow> \<forall>c \<in> set cs. CHR ''/'' \<notin> set c \<Longrightarrow> Split (joinSlash cs) CHR ''/'' = cs"
proof (induction cs rule: joinSlash.induct)
  case 1
  then show ?case by simp
next
  case (2 e)
  then show ?case by (simp add: Split_no_sep)
next
  case (3 e v va)
  then have "Split (joinSlash (v # va)) CHR ''/'' = v # va" by simp
  moreover have "CHR ''/'' \<notin> set e" using "3.prems" by simp
  ultimately show ?case by (simp add: Split_append_sep)
qed

lemma cleanElems_plain:
  "\<forall>c \<in> set cs. plainName c \<Longrightarrow> cleanElems rooted cs out = out @ cs"
  by (induction cs arbitrary: out) (auto simp: plainName_def)

lemma joinSlash_snoc: "cs \<noteq> [] \<Longrightarrow> joinSlash (cs @ [n]) = joinSlash cs @ ''/'' @ n"
  by (induction cs rule: joinSlash.induct) simp_all

lemma joinSlash_nonempty: "cs \<noteq> [] \<Longrightarrow> \<forall>c \<in> set cs. plainName c \<Longrightarrow> joinSlash cs \<noteq> []"
  by (induction cs rule: joinSlash.induct) (auto simp: plainName_def)

lemma Clean_plain:
  assumes "cs \<noteq> []" and "\<forall>c \<in> set cs. plainName c"
  shows "Clean (''/'' @ joinSlash cs) = ''/'' @ joinSlash cs"
proof -
  have nosep: "\<forall>c \<in> set cs. CHR ''/'' \<notin> set c" using assms(2) by (simp add: plainName_def)
  have "Split (''/'' @ joinSlash cs) CHR ''/'' = [] # Split (joinSlash cs) CHR ''/''"
    by simp
  also have "\<dots> = [] # cs" using assms(1) nosep by (simp add: Split_joinSlash)
  finally have sp: "Split (''/'' @ joinSlash cs) CHR ''/'' = [] # cs" .
  have "cleanElems True ([] # cs) [] = cs"
    using assms(2) by (simp add: cleanElems_plain)
  then show ?thesis
    unfolding Clean_def sp by (simp add: Let_def)
qed

lemma Join_plain:
  assumes "cs \<noteq> []" and "\<forall>c \<in> set cs. plainName c" and "plainName n"
  shows "Join (''/'' @ joinSlash cs) n = ''/'' @ joinSlash (cs @ [n])"
proof -
  have "Join (''/'' @ joinSlash cs) n = Clean ((''/'' @ joinSlash cs) @ ''/'' @ n)"
    by (simp add: Join_def)
  also have "(''/'' @ joinSlash cs) @ ''/'' @ n = ''/'' @ joinSlash (cs @ [n])"
    using assms(1) by (simp add: joinSlash_snoc)
  also have "Clean (''/'' @ joinSlash (cs @ [n])) = ''/'' @ joinSlash (cs @ [n])"
    using assms by (intro Clean_plain) auto
  finally show ?thesis .
qed

lemma foldl_Join_plain:
  "cs \<noteq> [] \<Longrightarrow> \<forall>c \<in> set cs. plainName c \<Longrightarrow> \<forall>n \<in> set names. plainName n \<Longrightarrow>
     foldl Join (''/'' @ joinSlash cs) names = ''/'' @ joinSlash (cs @ names)"
proof (induction names arbitrary: cs)
  case Nil
  then show ?case by simp
next
  case (Cons n names)
  have n: "plainName n" and rest: "\<forall>x \<in> set names. plainName x"
    using Cons.prems(3) by simp_all
  have step: "Join (''/'' @ joinSlash cs) n = ''/'' @ joinSlash (cs @ [n])"
    using Cons.prems(1,2) n by (rule Join_plain)
  have ne: "cs @ [n] \<noteq> []" by simp
  have all: "\<forall>c \<in> set (cs @ [n]). plainName c"
    using Cons.prems(2) n by simp
  have "foldl Join (''/'' @ joinSlash (cs @ [n])) names = ''/'' @ joinSlash ((cs @ [n]) @ names)"
    using ne all rest by (rule Cons.IH)
  with step show ?case by simp
qed

lemma normalizeSegs_plain:
  "\<forall>s \<in> set ss. CHR ''/'' \<notin> set s \<Longrightarrow> \<forall>s \<in> set acc. plainName s \<Longrightarrow>
     \<forall>s \<in> set (normalizeSegs ss acc). plainName s"
proof (induction ss arbitrary: acc)
  case Nil
  then show ?case by simp
next
  case (Cons s ss)
  have tl: "\<forall>x \<in> set ss. CHR ''/'' \<notin> set x" and hd: "CHR ''/'' \<notin> set s"
    using Cons.prems(1) by simp_all
  consider (skip) "s = [] \<or> s = ''.''" | (up) "s = ''..''"
    | (push) "s \<noteq> []" "s \<noteq> ''.''" "s \<noteq> ''..''"
    by blast
  then show ?case
  proof cases
    case skip
    then have "normalizeSegs (s # ss) acc = normalizeSegs ss acc" by auto
    then show ?thesis using Cons.IH [OF tl Cons.prems(2)] by simp
  next
    case up
    have bl: "\<forall>x \<in> set (butlast acc). plainName x"
      using Cons.prems(2) by (meson in_set_butlastD)
    have "normalizeSegs (s # ss) acc = normalizeSegs ss (if acc \<noteq> [] then butlast acc else acc)"
      using up by simp
    then show ?thesis
      using Cons.IH [OF tl bl] Cons.IH [OF tl Cons.prems(2)] by (cases "acc = []") simp_all
  next
    case push
    have pl: "\<forall>x \<in> set (acc @ [s]). plainName x"
      using push hd Cons.prems(2) by (simp add: plainName_def)
    have "normalizeSegs (s # ss) acc = normalizeSegs ss (acc @ [s])"
      using push by simp
    then show ?thesis using Cons.IH [OF tl pl] by simp
  qed
qed

lemma segments_plain: "\<forall>s \<in> set (segments win). plainName s"
  unfolding segments_def Let_def
  by (rule normalizeSegs_plain) (auto dest: set_Split)

lemma mount_path_plain:
  assumes "plainName mntRoot" and "\<forall>n \<in> set names. plainName n"
  shows "foldl Join (Join ''/mnt'' mntRoot) names = ''/'' @ joinSlash (''mnt'' # mntRoot # names)"
proof -
  have m: "plainName ''mnt''" by (simp add: plainName_def)
  have "Join ''/mnt'' mntRoot = ''/'' @ joinSlash ([''mnt''] @ [mntRoot])"
    using Join_plain [of "[''mnt'']" mntRoot] m assms(1) by simp
  moreover have "foldl Join (''/'' @ joinSlash ([''mnt''] @ [mntRoot])) names
                   = ''/'' @ joinSlash (([''mnt''] @ [mntRoot]) @ names)"
    using m assms by (intro foldl_Join_plain) auto
  ultimately show ?thesis by simp
qed

subsection \<open>Round trip\<close>

lemma foldEq_refl [simp]: "foldEq env r r"
  by (simp add: foldEq_def)

lemma foldAll_refl [simp]: "foldAll env rs rs"
  by (induction rs) simp_all

lemma EqualFold_refl [simp]: "EqualFold env s s"
  by (simp add: EqualFold_def)

lemma foldAll_length: "foldAll env xs ys \<Longrightarrow> length xs = length ys"
  by (induction env xs ys rule: foldAll.induct) simp_all

lemma EqualFold_length: "EqualFold env s t \<Longrightarrow> length (runes s) = length (runes t)"
  unfolding EqualFold_def by (rule foldAll_length)

lemma caseScore_self: "caseScore s s = int (length (runes s))"
  by (simp add: caseScore_card)

lemma caseScore_le: "caseScore seg n \<le> int (length (runes seg))"
proof -
  let ?k = "min (length (runes seg)) (length (runes n))"
  have "{i. i < ?k \<and> runes seg ! i = runes n ! i} \<subseteq> {..<?k}" by auto
  then have "card {i. i < ?k \<and> runes seg ! i = runes n ! i} \<le> card {..<?k}"
    by (intro card_mono) simp_all
  then show ?thesis unfolding caseScore_card by simp
qed

lemma caseScore_full:
  assumes len: "length (runes n) = length (runes seg)"
      and full: "caseScore seg n = int (length (runes seg))"
  shows "runes n = runes seg"
proof -
  let ?k = "length (runes seg)"
  let ?S = "{i. i < ?k \<and> runes seg ! i = runes n ! i}"
  have sub: "?S \<subseteq> {..<?k}" by auto
  have "card ?S = card {..<?k}"
    using full len unfolding caseScore_card by simp
  with sub have "?S = {..<?k}" by (intro card_subset_eq) simp_all
  then have "runes seg ! i = runes n ! i" if "i < ?k" for i
    using that by blast
  then show ?thesis using len by (intro nth_equalityI) simp_all
qed

lemma chainScore_self: "chainScore segs segs = maxScore segs"
  by (induction segs) (simp_all add: maxScore_def caseScore_self)

lemma maxScore_Cons [simp]: "maxScore (seg # segs) = int (length (runes seg)) + maxScore segs"
  by (simp add: maxScore_def)

lemma maxScore_Nil [simp]: "maxScore [] = 0"
  by (simp add: maxScore_def)

lemma chainScore_le:
  "reached env d segs names \<Longrightarrow> chainScore segs names \<le> maxScore segs"
proof (induction env d segs names rule: reached.induct)
  case (2 env d seg segs n names)
  then have "chainScore segs names \<le> maxScore segs"
    by (auto split: option.splits)
  with caseScore_le [of seg n] show ?case by simp
qed simp_all

lemma full_score_is_exact:
  "reached env d segs names \<Longrightarrow> unambiguous env d segs \<Longrightarrow>
     chainScore segs names = maxScore segs \<Longrightarrow> names = segs"
proof (induction env d segs names rule: reached.induct)
  case (2 env d seg segs n names)
  from "2.prems"(1) obtain ents e where ents: "ReadDir env d = Some ents"
    and e: "e \<in> set ents" "Name e = n" "EqualFold env n seg"
    and r: "reached env (Join d n) segs names"
    by (auto split: option.splits)
  have le1: "caseScore seg n \<le> int (length (runes seg))" by (rule caseScore_le)
  have le2: "chainScore segs names \<le> maxScore segs" using r by (rule chainScore_le)
  from "2.prems"(3) le1 le2
  have full: "caseScore seg n = int (length (runes seg))"
    and rest: "chainScore segs names = maxScore segs"
    by simp_all
  have "runes n = runes seg"
    using EqualFold_length [OF e(3)] full by (rule caseScore_full)
  with "2.prems"(2) ents e have n: "n = seg" by auto
  from "2.prems"(2) have "unambiguous env (Join d n) segs" unfolding n by simp
  with "2.IH" [OF ents] r rest have "names = segs" by simp
  with n show ?case by simp
qed simp_all

lemma validUTF8_same_runes:
  "validUTF8 a \<Longrightarrow> validUTF8 b \<Longrightarrow> runes a = runes b \<Longrightarrow> a = b"
  unfolding validUTF8_def by metis


lemma unambiguous_valid:
  "(\<And>d ents e. ReadDir env d = Some ents \<Longrightarrow> e \<in> set ents \<Longrightarrow> validUTF8 (Name e)) \<Longrightarrow>
   (\<And>seg. seg \<in> set segs \<Longrightarrow> validUTF8 seg) \<Longrightarrow> unambiguous env root segs"
proof (induction segs arbitrary: root)
  case Nil
  show ?case by simp
next
  case (Cons seg segs)
  have "Name e = seg" if "ReadDir env root = Some ents" "e \<in> set ents" "runes (Name e) = runes seg"
    for ents e
    using Cons.prems(1) [OF that(1,2)] Cons.prems(2) [of seg] that(3)
    by (simp add: validUTF8_same_runes)
  moreover have "unambiguous env (Join root seg) segs"
    using Cons.IH Cons.prems by simp
  ultimately show ?case by (simp split: option.splits)
qed

lemma exploreCandidates_total: "\<exists>cands. exploreCandidates env root segs = Inr cands"
  by (simp add: exploreCandidates_def)

text \<open>
  C9, amended. Let the mount root be found and let the segments of a drive path with
  separators, after normalization, name exactly a chain of real directories under it, such
  that every directory of the chain can be listed and lists the next segment as an entry
  that is a directory or a link to one, and such that no other entry of a directory of the
  chain decodes to the same characters as the segment asked for there (so it is when the
  names are valid UTF-8). Then the resolution returns exactly that path: the mount root and
  the segments, joined by single slashes. Its candidate has the score that is the number of
  characters of all segments, and no candidate has more.
\<close>

theorem exact_path_round_trip:
  assumes len: "2 \<le> length win"
      and mnt: "pickCaseInsensitiveEntry env ''/mnt'' (encodeRune (ToLower env (byte (win ! 0)))) = Inr mntRoot"
      and chain: "listedChain env (Join ''/mnt'' mntRoot) (segments win)"
      and un: "unambiguous env (Join ''/mnt'' mntRoot) (segments win)"
  shows "resolveWindowsPath env win = Inr (foldl Join (Join ''/mnt'' mntRoot) (segments win))
         \<and> (plainName mntRoot \<longrightarrow>
               foldl Join (Join ''/mnt'' mntRoot) (segments win)
                 = ''/'' @ joinSlash (''mnt'' # mntRoot # segments win))
         \<and> (\<exists>cands. exploreCandidates env (Join ''/mnt'' mntRoot) (segments win) = Inr cands
              \<and> \<lparr>fullPath = foldl Join (Join ''/mnt'' mntRoot) (segments win),
                   score = maxScore (segments win)\<rparr> \<in> set cands
              \<and> (\<forall>c \<in> set cands. score c \<le> maxScore (segments win)))"
proof -
  let ?root = "Join ''/mnt'' mntRoot"
  let ?segs = "segments win"
  let ?best = "\<lparr>fullPath = foldl Join ?root ?segs, score = maxScore ?segs\<rparr>"
  obtain cands where ex: "exploreCandidates env ?root ?segs = Inr cands"
    using exploreCandidates_total by blast
  note iff = exploreCandidates_iff [OF ex]
  from chain have r: "reached env ?root ?segs ?segs"
    and s: "Stat env (foldl Join ?root ?segs) = Some True"
    by (simp_all add: listedChain_def)
  have best: "?best \<in> set cands"
    using iff [of ?best] r s chainScore_self [of ?segs] by auto
  have bound: "score c \<le> maxScore ?segs" if "c \<in> set cands" for c
    using iff [of c] that chainScore_le by auto
  have exact: "fullPath c = foldl Join ?root ?segs"
    if c: "c \<in> set cands" and "maxScore ?segs \<le> score c" for c
  proof -
    from iff [of c] c obtain names where names: "reached env ?root ?segs names"
      and cdef: "c = \<lparr>fullPath = foldl Join ?root names, score = chainScore ?segs names\<rparr>"
      by blast
    from that(2) cdef chainScore_le [OF names] have "chainScore ?segs names = maxScore ?segs"
      by simp
    with names un have "names = ?segs" by (rule full_score_is_exact)
    with cdef show ?thesis by simp
  qed
  from best have ne: "cands \<noteq> []" by auto
  let ?h = "hd (SliceStable candidateLess cands)"
  from candidateLess_first [OF ne]
  have h: "?h \<in> set cands" and first: "\<forall>c' \<in> set cands. \<not> candidateLess c' ?h"
    by simp_all
  from first best have "\<not> candidateLess ?best ?h" by blast
  then have "maxScore ?segs \<le> score ?h"
    by (auto simp: candidateLess_def split: if_splits)
  with h have "fullPath ?h = foldl Join ?root ?segs" by (rule exact)
  moreover have "resolveWindowsPath env win = Inr (fullPath ?h)"
    using len mnt ex ne by (rule resolveWindowsPath_head)
  ultimately have res: "resolveWindowsPath env win = Inr (foldl Join ?root ?segs)" by simp
  have shape: "foldl Join ?root ?segs = ''/'' @ joinSlash (''mnt'' # mntRoot # ?segs)"
    if "plainName mntRoot"
    using that segments_plain by (rule mount_path_plain)
  from res shape ex best bound show ?thesis by blast
qed

theorem exact_path_round_trip_witness:
  "segments ''C:/Users'' = [''Users'']
   \<and> maxScore [''Users''] = 5
   \<and> exploreCandidates usersSys ''/mnt/c'' [''Users'']
       = Inr [\<lparr>fullPath = ''/mnt/c/USERS'', score = 1\<rparr>, \<lparr>fullPath = ''/mnt/c/Users'', score = 5\<rparr>]
   \<and> resolveWindowsPath usersSys ''C:/Users'' = Inr ''/mnt/c/Users''"
proof -
  have len: "2 \<le> length ''C:/Users''" by simp
  have mnt: "pickCaseInsensitiveEntry usersSys ''/mnt''
               (encodeRune (ToLower usersSys (byte (''C:/Users'' ! 0)))) = Inr ''c''"
    by code_simp
  have root: "Join ''/mnt'' ''c'' = ''/mnt/c''" by code_simp
  have segs: "segments ''C:/Users'' = [''Users'']" by code_simp
  have chain: "listedChain usersSys (Join ''/mnt'' ''c'') (segments ''C:/Users'')"
    by code_simp
  have un: "unambiguous usersSys (Join ''/mnt'' ''c'') (segments ''C:/Users'')"
    by code_simp
  have p: "foldl Join ''/mnt/c'' [''Users''] = ''/mnt/c/Users''" by code_simp
  have m: "maxScore [''Users''] = 5" by code_simp
  have ex: "exploreCandidates usersSys ''/mnt/c'' [''Users'']
       = Inr [\<lparr>fullPath = ''/mnt/c/USERS'', score = 1\<rparr>, \<lparr>fullPath = ''/mnt/c/Users'', score = 5\<rparr>]"
    by code_simp
  from exact_path_round_trip [OF len mnt chain un]
  have "resolveWindowsPath usersSys ''C:/Users'' = Inr ''/mnt/c/Users''"
    unfolding root segs p by simp
  with segs m ex show ?thesis by simp
qed

text \<open>
  C9, as stated, holds of every chain of real directories. It fails in two ways. On a drive
  with the directories named by the bytes 0x80 and 0x81, both decode to the one rune U+FFFD:
  asked for 0x81, the two candidates tie on score 1 and the path of 0x80, the smaller one,
  is returned. On a drive where the directory \<open>Foo\<close> can be entered but not listed, the
  search prunes it: asked for \<open>Foo/bar\<close>, a real directory, the resolution returns
  \<open>foo/bar\<close>.
\<close>

theorem round_trip_fails_on_undecodable_or_unlisted:
  "realChain rawSys ''/mnt/c'' (segments (''C:/'' @ [CHR 0x81]))
   \<and> listedChain rawSys ''/mnt/c'' (segments (''C:/'' @ [CHR 0x81]))
   \<and> foldl Join ''/mnt/c'' (segments (''C:/'' @ [CHR 0x81])) = ''/mnt/c/'' @ [CHR 0x81]
   \<and> pickCaseInsensitiveEntry rawSys ''/mnt''
        (encodeRune (ToLower rawSys (byte ((''C:/'' @ [CHR 0x81]) ! 0)))) = Inr ''c''
   \<and> Join ''/mnt'' ''c'' = ''/mnt/c''
   \<and> resolveWindowsPath rawSys (''C:/'' @ [CHR 0x81]) = Inr (''/mnt/c/'' @ [CHR 0x80])
   \<and> realChain unlistedSys ''/mnt/c'' (segments ''C:/Foo/bar'')
   \<and> unambiguous unlistedSys ''/mnt/c'' (segments ''C:/Foo/bar'')
   \<and> ReadDir unlistedSys ''/mnt/c/Foo'' = None
   \<and> foldl Join ''/mnt/c'' (segments ''C:/Foo/bar'') = ''/mnt/c/Foo/bar''
   \<and> pickCaseInsensitiveEntry unlistedSys ''/mnt''
        (encodeRune (ToLower unlistedSys (byte (''C:/Foo/bar'' ! 0)))) = Inr ''c''
   \<and> resolveWindowsPath unlistedSys ''C:/Foo/bar'' = Inr ''/mnt/c/foo/bar''"
  by code_simp

end
